theory Spec2Isabelle
  imports Main "HOL-Library.Word"
begin

unbundle bit_operations_syntax

section \<open>Basic types\<close>

text \<open>
  Go's \<open>uint64\<close> and \<open>byte\<close> are machine words. A Go \<open>string\<close> is an immutable
  sequence of bytes and is modelled as a byte list, like \<open>[]byte\<close>.
\<close>

type_synonym u64 = "64 word"
type_synonym byte = "8 word"
type_synonym gostring = "byte list"

text \<open>
  Error values returned by the code (\<open>error\<close> results), and the run-time panics that the
  code can raise. They are kept apart: an error is returned to the caller, a panic unwinds
  the stack and, as nothing in the program recovers, ends the process.
\<close>

datatype error =
    EOF                       \<comment> \<open>\<open>io.EOF\<close>\<close>
  | ErrUnexpectedEOF          \<comment> \<open>\<open>io.ErrUnexpectedEOF\<close>\<close>
  | errOverflow               \<comment> \<open>\<open>binary: varint overflows a 64-bit integer\<close>\<close>
  | BadHeader gostring        \<comment> \<open>\<open>Bad read: expected string '...', read '...'\<close>\<close>
  | ReadingHeader error       \<comment> \<open>\<open>Reading header: %w\<close>\<close>
  | UnexpectedRecordType u64  \<comment> \<open>\<open>Unexpected record type: %v\<close>\<close>
  | RecordNotFound u64        \<comment> \<open>\<open>Cound not find record for address 0x%x\<close>\<close>
  | LoopError u64             \<comment> \<open>\<open>Loop: already visited address 0x%x\<close>\<close>
  | StackFrameNotFound u64    \<comment> \<open>\<open>Cound not find stack frame at address 0x%x\<close>\<close>
  | NoContents                \<comment> \<open>\<open>Object of type %T does not have Contents\<close>\<close>
  | UnexpectedNewline         \<comment> \<open>\<open>fmt\<close>: \<open>unexpected newline\<close>\<close>
  | ExpectedInteger           \<comment> \<open>\<open>fmt\<close>: \<open>expected integer\<close>\<close>
  | ExpectedNewline           \<comment> \<open>\<open>fmt\<close>: \<open>expected newline\<close>\<close>
  | ErrSyntax gostring        \<comment> \<open>\<open>strconv.ParseUint: parsing "...": invalid syntax\<close>\<close>
  | ErrRange gostring         \<comment> \<open>\<open>strconv.ParseUint: parsing "...": value out of range\<close>\<close>

datatype panic =
    NilPointerDereference     \<comment> \<open>invalid memory address or nil pointer dereference\<close>
  | SliceBoundsOutOfRange     \<comment> \<open>\<open>contents[offset:]\<close> with \<open>offset > len(contents)\<close>\<close>
  | IndexOutOfRange           \<comment> \<open>\<open>byteOrder.UintN(b)\<close> with \<open>len(b) < N/8\<close>\<close>
  | CannotHandlePointers u64  \<comment> \<open>\<open>panic("Cannot handle pointers of size %d")\<close>\<close>
  | InterfaceConversion       \<comment> \<open>a failed single-valued type assertion\<close>
  | NilMapAssignment          \<comment> \<open>assignment to entry in nil map\<close>

datatype 'a outcome = Ok 'a | Err error | Panic panic

section \<open>The dump records (package heapdump)\<close>

datatype DumpParams = DumpParams
  (BigEndian: bool) (PointerSize: u64) (HeapStart: u64) (HeapEnd: u64)
  (Architecture: gostring) (GoExperiment: gostring) (Ncpu: u64)

datatype StackFrame = StackFrame
  (Address: u64) (Depth: u64) (ChildPointer: u64) (Contents: "byte list") (EntryPc: u64)
  (CurrentPc: u64) (ContinuationPc: u64) (Name: gostring) (Fields: "u64 list")

datatype frame = Frame gostring gostring u64  \<comment> \<open>Name, Filename, Line\<close>

text \<open>
  One constructor per Go struct implementing \<open>Record\<close>; the arguments are the struct's
  fields in declaration order. \<open>StackFrame\<close> and \<open>DumpParams\<close>, whose fields the analyzer
  reads one by one, are datatypes of their own.
\<close>

datatype Record =
    Eof
  | Object u64 "byte list" "u64 list" gostring
      \<comment> \<open>Address, Contents, Fields, Name\<close>
  | OtherRoot gostring u64
      \<comment> \<open>Description, Address\<close>
  | TypeDescriptor u64 u64 gostring bool
      \<comment> \<open>Address, TypeSize, Name, Indirect\<close>
  | Goroutine u64 u64 u64 u64 u64 bool bool u64 gostring u64 u64 u64 u64
      \<comment> \<open>Address, StackPointer, RoutineId, CreatorPointer, Status, System, Background,
          WaitStart, WaitReason, CurrentContextPointer, OsThreadDescriptorAddress,
          TopDefer, TopPanic\<close>
  | StackFrameRecord StackFrame
  | DumpParamsRecord DumpParams
  | RegisteredFinalizer u64 u64 u64 u64 u64
      \<comment> \<open>ObjectAddress, FinalizerAddress, FinalizerEntryPc, FinalizerType, ObjectType\<close>
  | Itab u64 u64
      \<comment> \<open>Address, TypeDescriptorAddress\<close>
  | OsThread u64 u64 u64
      \<comment> \<open>ThreadDescriptorAddress, GoId, OsId\<close>
  | MemStats "u64 list" "u64 list" u64
      \<comment> \<open>the 24 counters Alloc .. PauseTotalNs, PauseNs, NumGC\<close>
  | QueuedFinalizer u64 u64 u64 u64 u64
      \<comment> \<open>ObjectAddress, FinalizerAddress, FinalizerEntryPc, FinalizerType, ObjectType\<close>
  | DataSegment u64 "byte list" "u64 list"
      \<comment> \<open>Address, Contents, Fields\<close>
  | BssSegment u64 "byte list" "u64 list"
      \<comment> \<open>Address, Contents, Fields\<close>
  | DeferRecord u64 u64 u64 u64 u64 u64 u64
      \<comment> \<open>Address, ContainingGoroutine, Arcp, Pc, FuncVal, EntryPointPc, Next\<close>
  | PanicRecord u64 u64 u64 u64 u64 u64
      \<comment> \<open>Address, Goroutine, PanicArgType, PanicArgData, DeferRecordPtr, Next\<close>
  | AllocFreeProfileRecord u64 u64 "frame list" u64 u64
      \<comment> \<open>Id, Size, Frames, AllocationCount, FreeCount\<close>
  | AllocStackTraceSample u64 u64
      \<comment> \<open>Address, AllocFreeProfileRecordId\<close>

text \<open>
  The interface \<open>Addressable\<close> is satisfied by every record type with a method
  \<open>GetAddress\<close>. \<open>GetAddress r = None\<close> says that the type of \<open>r\<close> has no such method,
  so that the assertion \<open>record.(heapdump.Addressable)\<close> fails.
\<close>

fun GetAddress :: "Record \<Rightarrow> u64 option" where
  "GetAddress (Object a _ _ _) = Some a"
| "GetAddress (OtherRoot _ a) = Some a"
| "GetAddress (TypeDescriptor a _ _ _) = Some a"
| "GetAddress (Goroutine a _ _ _ _ _ _ _ _ _ _ _ _) = Some a"
| "GetAddress (StackFrameRecord f) = Some (Address f)"
| "GetAddress (Itab a _) = Some a"
| "GetAddress (DataSegment a _ _) = Some a"
| "GetAddress (BssSegment a _ _) = Some a"
| "GetAddress (DeferRecord a _ _ _ _ _ _) = Some a"
| "GetAddress (PanicRecord a _ _ _ _ _) = Some a"
| "GetAddress (AllocStackTraceSample a _) = Some a"
| "GetAddress _ = None"

text \<open>
  The interface \<open>Owner\<close> (\<open>GetAddress\<close>, \<open>GetContents\<close>, \<open>GetFields\<close>) is satisfied by
  four record types. \<open>asOwner\<close> is the assertion \<open>record.(heapdump.Owner)\<close>; its result
  holds what the three methods return.
\<close>

datatype Owner = Owner (oAddress: u64) (oContents: "byte list") (oFields: "u64 list")

fun asOwner :: "Record \<Rightarrow> Owner option" where
  "asOwner (Object a c f _) = Some (Owner a c f)"
| "asOwner (StackFrameRecord f) = Some (Owner (Address f) (Contents f) (Fields f))"
| "asOwner (DataSegment a c f) = Some (Owner a c f)"
| "asOwner (BssSegment a c f) = Some (Owner a c f)"
| "asOwner _ = None"

text \<open>
  \<open>fmt.Stringer\<close>: every record type has a \<open>String\<close> method except \<open>DeferRecord\<close> and
  \<open>PanicRecord\<close>.
\<close>

fun isStringer :: "Record \<Rightarrow> bool" where
  "isStringer (DeferRecord _ _ _ _ _ _ _) = False"
| "isStringer (PanicRecord _ _ _ _ _ _) = False"
| "isStringer _ = True"

section \<open>Reading from the dump\<close>

text \<open>
  The process state the decoder works on: the unread bytes of the \<open>bufio.Reader\<close>, and
  the two package-level maps of \<open>names.go\<close>.
\<close>

record world =
  reader :: "byte list"
  oidMap :: "u64 \<rightharpoonup> gostring"
  nameMap :: "u64 \<rightharpoonup> gostring"

text \<open>
  A reading step either yields a value and the next state, or returns an error, or panics.
  \<open>andThen\<close> is the sequencing of the generated code: \<open>if err != nil { return }\<close>
  after each step.
\<close>

type_synonym 'a read = "world \<Rightarrow> ('a \<times> world) outcome"

definition ret :: "'a \<Rightarrow> 'a read" where
  "ret x w = Ok (x, w)"

definition andThen :: "'a read \<Rightarrow> ('a \<Rightarrow> 'b read) \<Rightarrow> 'b read" where
  "andThen m f w = (case m w of Ok (x, w') \<Rightarrow> f x w' | Err e \<Rightarrow> Err e | Panic p \<Rightarrow> Panic p)"

text \<open>
  \<open>binary.ReadUvarint\<close> of the Go library: at most \<open>MaxVarintLen64 = 10\<close> bytes of seven
  payload bits each, low group first. It returns the value read so far together with the
  error, which matters where the caller ignores the error.
\<close>

fun uvarint :: "nat \<Rightarrow> u64 \<Rightarrow> nat \<Rightarrow> byte list \<Rightarrow> u64 \<times> error option \<times> byte list" where
  "uvarint i x s [] = (x, Some (if 0 < i then ErrUnexpectedEOF else EOF), [])"
| "uvarint i x s (b # bs) =
     (if b < 0x80 then
        (if i = 9 \<and> 1 < b then (x, Some errOverflow, bs)
         else (x OR push_bit s (ucast b), None, bs))
      else if i = 9 then (x OR push_bit s (ucast (b AND 0x7f)), Some errOverflow, bs)
      else uvarint (Suc i) (x OR push_bit s (ucast (b AND 0x7f))) (s + 7) bs)"

definition ReadUvarint :: "u64 read" where
  "ReadUvarint w =
     (case uvarint 0 0 0 (reader w) of
        (x, None, rest) \<Rightarrow> Ok (x, w\<lparr>reader := rest\<rparr>)
      | (x, Some e, rest) \<Rightarrow> Err e)"

text \<open>
  \<open>make([]byte, n)\<close> followed by \<open>io.ReadFull\<close>: exactly \<open>n\<close> bytes, \<open>io.EOF\<close> when
  none is left, \<open>io.ErrUnexpectedEOF\<close> when fewer than \<open>n\<close> are. The allocation itself
  is taken to succeed: for a length that the runtime cannot allocate the program panics
  in \<open>make\<close>, where this function returns the read error. A read that succeeds here has
  found its \<open>n\<close> bytes in the input.
\<close>

definition ReadFull :: "u64 \<Rightarrow> (byte list) read" where
  "ReadFull n w =
     (if unat n \<le> length (reader w)
        then Ok (take (unat n) (reader w), w\<lparr>reader := drop (unat n) (reader w)\<rparr>)
      else if reader w = [] then Err EOF
      else Err ErrUnexpectedEOF)"

text \<open>The generated code for a field of kind \<open>bytes\<close> or \<open>string\<close>, and of kind \<open>bool\<close>.\<close>

definition ReadBytes :: "(byte list) read" where
  "ReadBytes = andThen ReadUvarint ReadFull"

definition ReadBool :: "bool read" where
  "ReadBool = andThen ReadUvarint (\<lambda>i. ret (i \<noteq> 0))"

text \<open>
  The generated code for a field list. The second \<open>ReadUvarint\<close> of an iteration assigns
  \<open>err\<close> without testing it: the value it returns is appended whatever happened, and the
  next iteration overwrites \<open>err\<close>.
\<close>

lemma uvarint_length: "uvarint i x s bs = (v, e, rest) \<Longrightarrow> length rest \<le> length bs"
  by (induction i x s bs rule: uvarint.induct) (auto split: if_splits)

lemma uvarint_consumes: "uvarint i x s bs = (v, None, rest) \<Longrightarrow> length rest < length bs"
  by (induction i x s bs rule: uvarint.induct) (auto split: if_splits)

function ReadFieldList :: "u64 list \<Rightarrow> byte list \<Rightarrow> error + (u64 list \<times> byte list)" where
  "ReadFieldList fs bs =
     (case uvarint 0 0 0 bs of
        (kind, Some e, rest) \<Rightarrow> Inl e
      | (kind, None, rest) \<Rightarrow>
          if kind = 0 then Inr (fs, rest)
          else (case uvarint 0 0 0 rest of
                  (v, _, rest') \<Rightarrow> ReadFieldList (fs @ [v]) rest'))"
  by pat_completeness auto
termination
proof (relation "measure (\<lambda>(fs, bs). length bs)", goal_cases)
  case 1
  show ?case by simp
next
  case (2 fs bs kind y e rest v y' e' rest')
  then have "uvarint 0 0 0 bs = (kind, None, rest)" and "uvarint 0 0 0 rest = (v, e', rest')"
    by simp_all
  then have "length rest < length bs" and "length rest' \<le> length rest"
    by (auto dest: uvarint_consumes uvarint_length)
  then show ?case by simp
qed

declare ReadFieldList.simps [simp del]

definition ReadFields :: "(u64 list) read" where
  "ReadFields w =
     (case ReadFieldList [] (reader w) of
        Inl e \<Rightarrow> Err e
      | Inr (fs, rest) \<Rightarrow> Ok (fs, w\<lparr>reader := rest\<rparr>))"

text \<open>A run of \<open>n\<close> fields of kind \<open>uvarint\<close>, read one after the other.\<close>

fun ReadUvarints :: "nat \<Rightarrow> (u64 list) read" where
  "ReadUvarints 0 = ret []"
| "ReadUvarints (Suc n) =
     andThen ReadUvarint (\<lambda>x. andThen (ReadUvarints n) (\<lambda>xs. ret (x # xs)))"

subsection \<open>Fixed-width integers (package encoding/binary)\<close>

text \<open>
  \<open>ByteOrder.Uint16\<close>, \<open>Uint32\<close> and \<open>Uint64\<close> read the first 2, 4 or 8 bytes of a
  slice; a shorter slice fails the bounds check and panics. A function that can
  panic but returns no error has a result of type \<open>panic + 'a\<close>.
\<close>

definition LittleEndian_Uint16 :: "byte list \<Rightarrow> panic + 16 word" where
  "LittleEndian_Uint16 b =
     (if length b < 2 then Inl IndexOutOfRange
      else Inr (ucast (b ! 0) OR push_bit 8 (ucast (b ! 1))))"

definition BigEndian_Uint16 :: "byte list \<Rightarrow> panic + 16 word" where
  "BigEndian_Uint16 b =
     (if length b < 2 then Inl IndexOutOfRange
      else Inr (ucast (b ! 1) OR push_bit 8 (ucast (b ! 0))))"

definition LittleEndian_Uint32 :: "byte list \<Rightarrow> panic + 32 word" where
  "LittleEndian_Uint32 b =
     (if length b < 4 then Inl IndexOutOfRange
      else Inr (ucast (b ! 0) OR push_bit 8 (ucast (b ! 1)) OR push_bit 16 (ucast (b ! 2))
               OR push_bit 24 (ucast (b ! 3))))"

definition BigEndian_Uint32 :: "byte list \<Rightarrow> panic + 32 word" where
  "BigEndian_Uint32 b =
     (if length b < 4 then Inl IndexOutOfRange
      else Inr (ucast (b ! 3) OR push_bit 8 (ucast (b ! 2)) OR push_bit 16 (ucast (b ! 1))
               OR push_bit 24 (ucast (b ! 0))))"

definition LittleEndian_Uint64 :: "byte list \<Rightarrow> panic + u64" where
  "LittleEndian_Uint64 b =
     (if length b < 8 then Inl IndexOutOfRange
      else Inr (ucast (b ! 0) OR push_bit 8 (ucast (b ! 1)) OR push_bit 16 (ucast (b ! 2))
               OR push_bit 24 (ucast (b ! 3)) OR push_bit 32 (ucast (b ! 4))
               OR push_bit 40 (ucast (b ! 5)) OR push_bit 48 (ucast (b ! 6))
               OR push_bit 56 (ucast (b ! 7))))"

definition BigEndian_Uint64 :: "byte list \<Rightarrow> panic + u64" where
  "BigEndian_Uint64 b =
     (if length b < 8 then Inl IndexOutOfRange
      else Inr (ucast (b ! 7) OR push_bit 8 (ucast (b ! 6)) OR push_bit 16 (ucast (b ! 5))
               OR push_bit 24 (ucast (b ! 4)) OR push_bit 32 (ucast (b ! 3))
               OR push_bit 40 (ucast (b ! 2)) OR push_bit 48 (ucast (b ! 1))
               OR push_bit 56 (ucast (b ! 0))))"

subsection \<open>The name registries (names.go)\<close>

definition AddOid :: "u64 \<Rightarrow> gostring \<Rightarrow> world \<Rightarrow> world" where
  "AddOid oid name w = w\<lparr>oidMap := (oidMap w)(oid \<mapsto> name)\<rparr>"

definition AddName :: "u64 \<Rightarrow> gostring \<Rightarrow> world \<Rightarrow> world" where
  "AddName addr name w = w\<lparr>nameMap := (nameMap w)(addr \<mapsto> name)\<rparr>"

definition GetName :: "world \<Rightarrow> u64 \<Rightarrow> gostring" where
  "GetName w addr = (case nameMap w addr of Some name \<Rightarrow> name | None \<Rightarrow> [])"

subsection \<open>The \<open>Read\<close> method of each record type\<close>

definition Eof_Read :: "Record read" where
  "Eof_Read = ret Eof"

text \<open>
  \<open>Object.Read\<close>: the three fields, then the class name. \<open>Name\<close> starts as the empty
  string; the name is looked up only when \<open>len(r.Contents) > 8\<close>.
\<close>

definition Object_Read :: "Record read" where
  "Object_Read =
     andThen ReadUvarint (\<lambda>Address.
     andThen ReadBytes (\<lambda>Contents.
     andThen ReadFields (\<lambda>Fields w.
       if 8 < length Contents then
         (case LittleEndian_Uint64 Contents of
            Inr oid \<Rightarrow>
              (case oidMap w oid of
                 Some className \<Rightarrow>
                   Ok (Object Address Contents Fields className, AddName Address className w)
               | None \<Rightarrow> Ok (Object Address Contents Fields [], w))
          | Inl q \<Rightarrow> Panic q)
       else Ok (Object Address Contents Fields [], w))))"

definition OtherRoot_Read :: "Record read" where
  "OtherRoot_Read =
     andThen ReadBytes (\<lambda>Description.
     andThen ReadUvarint (\<lambda>Address.
     ret (OtherRoot Description Address)))"

definition TypeDescriptor_Read :: "Record read" where
  "TypeDescriptor_Read =
     andThen ReadUvarint (\<lambda>Address.
     andThen ReadUvarint (\<lambda>TypeSize.
     andThen ReadBytes (\<lambda>Name.
     andThen ReadBool (\<lambda>Indirect.
     ret (TypeDescriptor Address TypeSize Name Indirect)))))"

definition Goroutine_Read :: "Record read" where
  "Goroutine_Read =
     andThen ReadUvarint (\<lambda>Address.
     andThen ReadUvarint (\<lambda>StackPointer.
     andThen ReadUvarint (\<lambda>RoutineId.
     andThen ReadUvarint (\<lambda>CreatorPointer.
     andThen ReadUvarint (\<lambda>Status.
     andThen ReadBool (\<lambda>System.
     andThen ReadBool (\<lambda>Background.
     andThen ReadUvarint (\<lambda>WaitStart.
     andThen ReadBytes (\<lambda>WaitReason.
     andThen ReadUvarint (\<lambda>CurrentContextPointer.
     andThen ReadUvarint (\<lambda>OsThreadDescriptorAddress.
     andThen ReadUvarint (\<lambda>TopDefer.
     andThen ReadUvarint (\<lambda>TopPanic.
     ret (Goroutine Address StackPointer RoutineId CreatorPointer Status System Background
            WaitStart WaitReason CurrentContextPointer OsThreadDescriptorAddress
            TopDefer TopPanic))))))))))))))"

definition StackFrame_Read :: "Record read" where
  "StackFrame_Read =
     andThen ReadUvarint (\<lambda>Address.
     andThen ReadUvarint (\<lambda>Depth.
     andThen ReadUvarint (\<lambda>ChildPointer.
     andThen ReadBytes (\<lambda>Contents.
     andThen ReadUvarint (\<lambda>EntryPc.
     andThen ReadUvarint (\<lambda>CurrentPc.
     andThen ReadUvarint (\<lambda>ContinuationPc.
     andThen ReadBytes (\<lambda>Name.
     andThen ReadFields (\<lambda>Fields.
     ret (StackFrameRecord
            (StackFrame Address Depth ChildPointer Contents EntryPc CurrentPc ContinuationPc
               Name Fields)))))))))))"

definition DumpParams_Read :: "Record read" where
  "DumpParams_Read =
     andThen ReadBool (\<lambda>BigEndian.
     andThen ReadUvarint (\<lambda>PointerSize.
     andThen ReadUvarint (\<lambda>HeapStart.
     andThen ReadUvarint (\<lambda>HeapEnd.
     andThen ReadBytes (\<lambda>Architecture.
     andThen ReadBytes (\<lambda>GoExperiment.
     andThen ReadUvarint (\<lambda>Ncpu.
     ret (DumpParamsRecord
            (DumpParams BigEndian PointerSize HeapStart HeapEnd Architecture GoExperiment
               Ncpu)))))))))"

definition RegisteredFinalizer_Read :: "Record read" where
  "RegisteredFinalizer_Read =
     andThen ReadUvarint (\<lambda>ObjectAddress.
     andThen ReadUvarint (\<lambda>FinalizerAddress.
     andThen ReadUvarint (\<lambda>FinalizerEntryPc.
     andThen ReadUvarint (\<lambda>FinalizerType.
     andThen ReadUvarint (\<lambda>ObjectType.
     ret (RegisteredFinalizer ObjectAddress FinalizerAddress FinalizerEntryPc FinalizerType
            ObjectType))))))"

definition Itab_Read :: "Record read" where
  "Itab_Read =
     andThen ReadUvarint (\<lambda>Address.
     andThen ReadUvarint (\<lambda>TypeDescriptorAddress.
     ret (Itab Address TypeDescriptorAddress)))"

definition OsThread_Read :: "Record read" where
  "OsThread_Read =
     andThen ReadUvarint (\<lambda>ThreadDescriptorAddress.
     andThen ReadUvarint (\<lambda>GoId.
     andThen ReadUvarint (\<lambda>OsId.
     ret (OsThread ThreadDescriptorAddress GoId OsId))))"

definition MemStats_Read :: "Record read" where
  "MemStats_Read =
     andThen (ReadUvarints 24) (\<lambda>counters.
     andThen (ReadUvarints 256) (\<lambda>PauseNs.
     andThen ReadUvarint (\<lambda>NumGC.
     ret (MemStats counters PauseNs NumGC))))"

definition QueuedFinalizer_Read :: "Record read" where
  "QueuedFinalizer_Read =
     andThen ReadUvarint (\<lambda>ObjectAddress.
     andThen ReadUvarint (\<lambda>FinalizerAddress.
     andThen ReadUvarint (\<lambda>FinalizerEntryPc.
     andThen ReadUvarint (\<lambda>FinalizerType.
     andThen ReadUvarint (\<lambda>ObjectType.
     ret (QueuedFinalizer ObjectAddress FinalizerAddress FinalizerEntryPc FinalizerType
            ObjectType))))))"

definition DataSegment_Read :: "Record read" where
  "DataSegment_Read =
     andThen ReadUvarint (\<lambda>Address.
     andThen ReadBytes (\<lambda>Contents.
     andThen ReadFields (\<lambda>Fields.
     ret (DataSegment Address Contents Fields))))"

definition BssSegment_Read :: "Record read" where
  "BssSegment_Read =
     andThen ReadUvarint (\<lambda>Address.
     andThen ReadBytes (\<lambda>Contents.
     andThen ReadFields (\<lambda>Fields.
     ret (BssSegment Address Contents Fields))))"

definition DeferRecord_Read :: "Record read" where
  "DeferRecord_Read =
     andThen ReadUvarint (\<lambda>Address.
     andThen ReadUvarint (\<lambda>ContainingGoroutine.
     andThen ReadUvarint (\<lambda>Arcp.
     andThen ReadUvarint (\<lambda>Pc.
     andThen ReadUvarint (\<lambda>FuncVal.
     andThen ReadUvarint (\<lambda>EntryPointPc.
     andThen ReadUvarint (\<lambda>Next.
     ret (DeferRecord Address ContainingGoroutine Arcp Pc FuncVal EntryPointPc Next))))))))"

definition PanicRecord_Read :: "Record read" where
  "PanicRecord_Read =
     andThen ReadUvarint (\<lambda>Address.
     andThen ReadUvarint (\<lambda>Goroutine.
     andThen ReadUvarint (\<lambda>PanicArgType.
     andThen ReadUvarint (\<lambda>PanicArgData.
     andThen ReadUvarint (\<lambda>DeferRecordPtr.
     andThen ReadUvarint (\<lambda>Next.
     ret (PanicRecord Address Goroutine PanicArgType PanicArgData DeferRecordPtr Next)))))))"

text \<open>
  The frames of an \<open>AllocFreeProfileRecord\<close>: \<open>make([]frame, FrameCount)\<close>, taken to
  succeed as above, and the loop that reads each frame.
\<close>

fun ReadFrames :: "nat \<Rightarrow> (frame list) read" where
  "ReadFrames 0 = ret []"
| "ReadFrames (Suc n) =
     andThen ReadBytes (\<lambda>Name.
     andThen ReadBytes (\<lambda>Filename.
     andThen ReadUvarint (\<lambda>Line.
     andThen (ReadFrames n) (\<lambda>frames.
     ret (Frame Name Filename Line # frames)))))"

definition AllocFreeProfileRecord_Read :: "Record read" where
  "AllocFreeProfileRecord_Read =
     andThen ReadUvarint (\<lambda>Id.
     andThen ReadUvarint (\<lambda>Size.
     andThen ReadUvarint (\<lambda>FrameCount.
     andThen (ReadFrames (unat FrameCount)) (\<lambda>Frames.
     andThen ReadUvarint (\<lambda>AllocationCount.
     andThen ReadUvarint (\<lambda>FreeCount.
     ret (AllocFreeProfileRecord Id Size Frames AllocationCount FreeCount)))))))"

definition AllocStackTraceSample_Read :: "Record read" where
  "AllocStackTraceSample_Read =
     andThen ReadUvarint (\<lambda>Address.
     andThen ReadUvarint (\<lambda>AllocFreeProfileRecordId.
     ret (AllocStackTraceSample Address AllocFreeProfileRecordId)))"

subsection \<open>\<open>ReadHeader\<close> and \<open>ReadRecord\<close>\<close>

text \<open>The 16 bytes of \<open>"go1.7 heap dump\\n"\<close>.\<close>

definition Header :: gostring where
  "Header = [0x67, 0x6f, 0x31, 0x2e, 0x37, 0x20, 0x68, 0x65, 0x61, 0x70, 0x20,
             0x64, 0x75, 0x6d, 0x70, 0x0a]"

definition ReadHeader :: "unit read" where
  "ReadHeader =
     andThen (ReadFull (of_nat (length Header))) (\<lambda>val w.
       if val \<noteq> Header then Err (BadHeader val) else Ok ((), w))"

definition ReadRecord :: "Record read" where
  "ReadRecord =
     andThen ReadUvarint (\<lambda>rt.
       if rt = 0 then Eof_Read
       else if rt = 1 then Object_Read
       else if rt = 2 then OtherRoot_Read
       else if rt = 3 then TypeDescriptor_Read
       else if rt = 4 then Goroutine_Read
       else if rt = 5 then StackFrame_Read
       else if rt = 6 then DumpParams_Read
       else if rt = 7 then RegisteredFinalizer_Read
       else if rt = 8 then Itab_Read
       else if rt = 9 then OsThread_Read
       else if rt = 10 then MemStats_Read
       else if rt = 11 then QueuedFinalizer_Read
       else if rt = 12 then DataSegment_Read
       else if rt = 13 then BssSegment_Read
       else if rt = 14 then DeferRecord_Read
       else if rt = 15 then PanicRecord_Read
       else if rt = 16 then AllocFreeProfileRecord_Read
       else if rt = 17 then AllocStackTraceSample_Read
       else (\<lambda>w. Err (UnexpectedRecordType rt)))"

text \<open>
  Every successful \<open>ReadRecord\<close> takes at least the tag byte from the reader, and no
  step gives bytes back. The read loop of the analyzer terminates for this reason.
\<close>

definition shrinks :: "'a read \<Rightarrow> bool" where
  "shrinks m \<longleftrightarrow> (\<forall>w x w'. m w = Ok (x, w') \<longrightarrow> length (reader w') \<le> length (reader w))"

definition consumes :: "'a read \<Rightarrow> bool" where
  "consumes m \<longleftrightarrow> (\<forall>w x w'. m w = Ok (x, w') \<longrightarrow> length (reader w') < length (reader w))"

lemma consumes_shrinks: "consumes m \<Longrightarrow> shrinks m"
  by (auto simp: consumes_def shrinks_def dest: less_imp_le)

lemma shrinks_ret: "shrinks (ret x)"
  by (simp add: shrinks_def ret_def)

lemma andThen_Ok:
  "andThen m f w = Ok (y, w'') \<longleftrightarrow> (\<exists>x w'. m w = Ok (x, w') \<and> f x w' = Ok (y, w''))"
  by (auto simp: andThen_def split: outcome.splits)

lemma shrinks_andThen:
  assumes "shrinks m" and "\<And>x. shrinks (f x)"
  shows "shrinks (andThen m f)"
  unfolding shrinks_def
proof (intro allI impI)
  fix w y w''
  assume "andThen m f w = Ok (y, w'')"
  then obtain x w' where 1: "m w = Ok (x, w')" and 2: "f x w' = Ok (y, w'')"
    by (auto simp: andThen_Ok)
  from assms(1) 1 have "length (reader w') \<le> length (reader w)"
    by (auto simp: shrinks_def)
  moreover from assms(2) [of x] 2 have "length (reader w'') \<le> length (reader w')"
    by (auto simp: shrinks_def)
  ultimately show "length (reader w'') \<le> length (reader w)" by simp
qed

lemma consumes_andThen:
  assumes "consumes m" and "\<And>x. shrinks (f x)"
  shows "consumes (andThen m f)"
  unfolding consumes_def
proof (intro allI impI)
  fix w y w''
  assume "andThen m f w = Ok (y, w'')"
  then obtain x w' where 1: "m w = Ok (x, w')" and 2: "f x w' = Ok (y, w'')"
    by (auto simp: andThen_Ok)
  from assms(1) 1 have "length (reader w') < length (reader w)"
    by (auto simp: consumes_def)
  moreover from assms(2) [of x] 2 have "length (reader w'') \<le> length (reader w')"
    by (auto simp: shrinks_def)
  ultimately show "length (reader w'') < length (reader w)" by simp
qed

lemma consumes_ReadUvarint: "consumes ReadUvarint"
  unfolding consumes_def ReadUvarint_def
  by (auto split: prod.splits option.splits dest: uvarint_consumes)

lemma shrinks_ReadUvarint: "shrinks ReadUvarint"
  by (rule consumes_shrinks [OF consumes_ReadUvarint])

lemma shrinks_ReadFull: "shrinks (ReadFull n)"
  by (auto simp: shrinks_def ReadFull_def split: if_splits)

lemma shrinks_ReadBytes: "shrinks ReadBytes"
  unfolding ReadBytes_def by (intro shrinks_andThen shrinks_ReadUvarint shrinks_ReadFull)

lemma shrinks_ReadBool: "shrinks ReadBool"
  unfolding ReadBool_def by (intro shrinks_andThen shrinks_ReadUvarint shrinks_ret)

lemma ReadFieldList_length: "ReadFieldList fs bs = Inr (fs', rest) \<Longrightarrow> length rest \<le> length bs"
proof (induction fs bs arbitrary: fs' rest rule: ReadFieldList.induct)
  case (1 fs bs)
  obtain kind e r1 where k: "uvarint 0 0 0 bs = (kind, e, r1)"
    by (cases "uvarint 0 0 0 bs") auto
  show ?case
  proof (cases e)
    case (Some err)
    with k "1.prems" show ?thesis by (simp add: ReadFieldList.simps [of fs bs])
  next
    case None
    note k1 = k [unfolded None]
    have l1: "length r1 < length bs" using k1 by (rule uvarint_consumes)
    show ?thesis
    proof (cases "kind = 0")
      case True
      with k1 "1.prems" l1 show ?thesis by (simp add: ReadFieldList.simps [of fs bs])
    next
      case False
      obtain v e' r2 where v: "uvarint 0 0 0 r1 = (v, e', r2)"
        by (cases "uvarint 0 0 0 r1") auto
      have l2: "length r2 \<le> length r1" using v by (rule uvarint_length)
      from k1 False v "1.prems" have "ReadFieldList (fs @ [v]) r2 = Inr (fs', rest)"
        by (simp add: ReadFieldList.simps [of fs bs])
      then have "length rest \<le> length r2"
        using "1.IH" [OF k1 [symmetric] refl refl False v [symmetric] refl] by simp
      with l1 l2 show ?thesis by simp
    qed
  qed
qed

lemma shrinks_ReadFields: "shrinks ReadFields"
  unfolding shrinks_def ReadFields_def
  by (auto split: sum.splits prod.splits dest: ReadFieldList_length)

lemma shrinks_ReadUvarints: "shrinks (ReadUvarints n)"
  by (induction n) (auto intro!: shrinks_andThen shrinks_ReadUvarint shrinks_ret)

lemma shrinks_ReadFrames: "shrinks (ReadFrames n)"
  by (induction n)
     (auto intro!: shrinks_andThen shrinks_ReadUvarint shrinks_ReadBytes shrinks_ret)

lemmas shrinks_intros =
  shrinks_andThen shrinks_ret shrinks_ReadUvarint shrinks_ReadFull shrinks_ReadBytes
  shrinks_ReadBool shrinks_ReadFields shrinks_ReadUvarints shrinks_ReadFrames

lemma shrinks_Object_Read: "shrinks Object_Read"
proof -
  have "shrinks (\<lambda>w. if 8 < length Contents then
         (case LittleEndian_Uint64 Contents of
            Inr oid \<Rightarrow>
              (case oidMap w oid of
                 Some className \<Rightarrow>
                   Ok (Object Address Contents Fields className, AddName Address className w)
               | None \<Rightarrow> Ok (Object Address Contents Fields [], w))
          | Inl q \<Rightarrow> Panic q)
       else Ok (Object Address Contents Fields [], w))" for Address Contents Fields
    by (auto simp: shrinks_def AddName_def split: if_splits sum.splits option.splits)
  then show ?thesis
    unfolding Object_Read_def by (intro shrinks_intros)
qed

lemma shrinks_Read:
  "shrinks Eof_Read" "shrinks OtherRoot_Read" "shrinks TypeDescriptor_Read"
  "shrinks Goroutine_Read" "shrinks StackFrame_Read" "shrinks DumpParams_Read"
  "shrinks RegisteredFinalizer_Read" "shrinks Itab_Read" "shrinks OsThread_Read"
  "shrinks MemStats_Read" "shrinks QueuedFinalizer_Read" "shrinks DataSegment_Read"
  "shrinks BssSegment_Read" "shrinks DeferRecord_Read" "shrinks PanicRecord_Read"
  "shrinks AllocFreeProfileRecord_Read" "shrinks AllocStackTraceSample_Read"
  unfolding Eof_Read_def OtherRoot_Read_def TypeDescriptor_Read_def Goroutine_Read_def
    StackFrame_Read_def DumpParams_Read_def RegisteredFinalizer_Read_def Itab_Read_def
    OsThread_Read_def MemStats_Read_def QueuedFinalizer_Read_def DataSegment_Read_def
    BssSegment_Read_def DeferRecord_Read_def PanicRecord_Read_def
    AllocFreeProfileRecord_Read_def AllocStackTraceSample_Read_def
  by (intro shrinks_intros)+

lemma consumes_ReadRecord: "consumes ReadRecord"
  unfolding ReadRecord_def
proof (rule consumes_andThen [OF consumes_ReadUvarint])
  fix rt :: u64
  have "shrinks (\<lambda>w. Err (UnexpectedRecordType rt) :: (Record \<times> world) outcome)"
    by (simp add: shrinks_def)
  then show "shrinks (if rt = 0 then Eof_Read
       else if rt = 1 then Object_Read
       else if rt = 2 then OtherRoot_Read
       else if rt = 3 then TypeDescriptor_Read
       else if rt = 4 then Goroutine_Read
       else if rt = 5 then StackFrame_Read
       else if rt = 6 then DumpParams_Read
       else if rt = 7 then RegisteredFinalizer_Read
       else if rt = 8 then Itab_Read
       else if rt = 9 then OsThread_Read
       else if rt = 10 then MemStats_Read
       else if rt = 11 then QueuedFinalizer_Read
       else if rt = 12 then DataSegment_Read
       else if rt = 13 then BssSegment_Read
       else if rt = 14 then DeferRecord_Read
       else if rt = 15 then PanicRecord_Read
       else if rt = 16 then AllocFreeProfileRecord_Read
       else if rt = 17 then AllocStackTraceSample_Read
       else (\<lambda>w. Err (UnexpectedRecordType rt)))"
    using shrinks_Object_Read shrinks_Read by presburger
qed

lemma ReadRecord_consumes:
  "ReadRecord w = Ok (r, w') \<Longrightarrow> length (reader w') < length (reader w)"
  using consumes_ReadRecord by (auto simp: consumes_def)

section \<open>The pointer extractor\<close>

text \<open>
  The slice expression \<open>contents[offset:]\<close> panics when \<open>offset > len(contents)\<close>.
\<close>

definition sliceFrom :: "byte list \<Rightarrow> u64 \<Rightarrow> panic + byte list" where
  "sliceFrom contents offset =
     (if length contents < unat offset then Inl SliceBoundsOutOfRange
      else Inr (drop (unat offset) contents))"

text \<open>
  The \<open>switch p.PointerSize\<close> of one loop iteration of \<open>GetPointerInfo\<close>, with
  \<open>byteOrder\<close> chosen from \<open>p.BigEndian\<close>.
\<close>

definition pointerTargetAt :: "DumpParams \<Rightarrow> byte list \<Rightarrow> u64 \<Rightarrow> panic + u64" where
  "pointerTargetAt p contents offset =
     (if PointerSize p = 2 then
        (case sliceFrom contents offset of
           Inr b \<Rightarrow>
             (case (if BigEndian p then BigEndian_Uint16 b else LittleEndian_Uint16 b) of
                Inr v \<Rightarrow> Inr (ucast v) | Inl q \<Rightarrow> Inl q)
         | Inl q \<Rightarrow> Inl q)
      else if PointerSize p = 4 then
        (case sliceFrom contents offset of
           Inr b \<Rightarrow>
             (case (if BigEndian p then BigEndian_Uint32 b else LittleEndian_Uint32 b) of
                Inr v \<Rightarrow> Inr (ucast v) | Inl q \<Rightarrow> Inl q)
         | Inl q \<Rightarrow> Inl q)
      else if PointerSize p = 8 then
        (case sliceFrom contents offset of
           Inr b \<Rightarrow> (if BigEndian p then BigEndian_Uint64 b else LittleEndian_Uint64 b)
         | Inl q \<Rightarrow> Inl q)
      else Inl (CannotHandlePointers (PointerSize p)))"

text \<open>
  The loop of \<open>GetPointerInfo\<close> over the field list: entry \<open>i\<close> of the two results is
  computed from \<open>fields[i]\<close>; the first panic ends the call.
\<close>

fun pointerInfoLoop ::
  "DumpParams \<Rightarrow> u64 \<Rightarrow> byte list \<Rightarrow> u64 list \<Rightarrow> panic + (u64 list \<times> u64 list)" where
  "pointerInfoLoop p address contents [] = Inr ([], [])"
| "pointerInfoLoop p address contents (offset # rest) =
     (case pointerTargetAt p contents offset of
        Inr t \<Rightarrow>
          (case pointerInfoLoop p address contents rest of
             Inr (pointerSource, pointerTarget) \<Rightarrow>
               Inr ((address + offset) # pointerSource, t # pointerTarget)
           | Inl q \<Rightarrow> Inl q)
      | Inl q \<Rightarrow> Inl q)"

text \<open>
  \<open>GetPointerInfo(o, p)\<close>. The parameter \<open>p\<close> is a pointer that may be nil; the first
  statement that uses it, \<open>if p.BigEndian\<close>, stands before the loop.
\<close>

definition GetPointerInfo :: "Owner \<Rightarrow> DumpParams option \<Rightarrow> panic + (u64 list \<times> u64 list)" where
  "GetPointerInfo o' p =
     (case p of
        None \<Rightarrow> Inl NilPointerDereference
      | Some dp \<Rightarrow> pointerInfoLoop dp (oAddress o') (oContents o') (oFields o'))"

definition GetPointers :: "Owner \<Rightarrow> DumpParams option \<Rightarrow> panic + u64 list" where
  "GetPointers o' p =
     (case GetPointerInfo o' p of
        Inr (pointerSource, pointers) \<Rightarrow> Inr pointers
      | Inl q \<Rightarrow> Inl q)"

fun firstSource :: "u64 list \<Rightarrow> u64 list \<Rightarrow> u64 \<Rightarrow> u64" where
  "firstSource (s # ss) (t # ts) target = (if t = target then s else firstSource ss ts target)"
| "firstSource _ _ target = 0"

definition GetPointersSourceAddress :: "Owner \<Rightarrow> u64 \<Rightarrow> DumpParams option \<Rightarrow> panic + u64" where
  "GetPointersSourceAddress o' target p =
     (case GetPointerInfo o' p of
        Inr (s, t) \<Rightarrow> Inr (firstSource s t target)
      | Inl q \<Rightarrow> Inl q)"

section \<open>The analyzer (package treeclimber)\<close>

text \<open>
  The struct \<open>TreeClimber\<close>. A nil pointer or nil map is \<open>None\<close> or the empty map.
  \<open>visited\<close> is a \<open>map[uint64]bool\<close> in which the code only ever stores \<open>true\<close>: it is
  the set of its keys, and \<open>None\<close> when the field is nil.
\<close>

record TreeClimber =
  params :: "DumpParams option"
  memory :: "u64 \<rightharpoonup> Record"
  owners :: "u64 \<rightharpoonup> Record list"
  visited :: "u64 set option"
  finalizers :: "u64 \<rightharpoonup> Record"

definition addOwner :: "u64 \<Rightarrow> Record \<Rightarrow> TreeClimber \<Rightarrow> TreeClimber" where
  "addOwner address r c =
     c\<lparr>owners := (owners c)(address \<mapsto>
          (case owners c address of None \<Rightarrow> [] | Some rs \<Rightarrow> rs) @ [r])\<rparr>"

text \<open>
  The body of the read loop of \<open>build\<close> after \<open>ReadRecord\<close>: the type switch, the
  insertion into \<open>memory\<close>, and the owner pointers. \<open>Stop\<close> is \<open>break readloop\<close>.
\<close>

datatype step = Continue TreeClimber | Stop TreeClimber | Crash panic

fun addOwners :: "u64 list \<Rightarrow> Record \<Rightarrow> TreeClimber \<Rightarrow> TreeClimber" where
  "addOwners [] record c = c"
| "addOwners (pointer # pointers) record c =
     addOwners pointers record (if pointer \<noteq> 0 then addOwner pointer record c else c)"

definition typeSwitch :: "Record \<Rightarrow> TreeClimber \<Rightarrow> TreeClimber" where
  "typeSwitch record c =
     (case record of
        DumpParamsRecord r \<Rightarrow> c\<lparr>params := Some r\<rparr>
      | QueuedFinalizer ObjectAddress _ _ _ _ \<Rightarrow>
          c\<lparr>finalizers := (finalizers c)(ObjectAddress \<mapsto> record)\<rparr>
      | RegisteredFinalizer ObjectAddress _ _ _ _ \<Rightarrow>
          c\<lparr>finalizers := (finalizers c)(ObjectAddress \<mapsto> record)\<rparr>
      | _ \<Rightarrow> c)"

definition insertAddressable :: "Record \<Rightarrow> TreeClimber \<Rightarrow> TreeClimber" where
  "insertAddressable record c =
     (case GetAddress record of
        Some a \<Rightarrow> c\<lparr>memory := (memory c)(a \<mapsto> record)\<rparr>
      | None \<Rightarrow> c)"

definition buildStep :: "Record \<Rightarrow> TreeClimber \<Rightarrow> step" where
  "buildStep record c =
     (if record = Eof then Stop c
      else
        let c1 = typeSwitch record c;
            c2 = insertAddressable record c1
        in (case asOwner record of
              None \<Rightarrow> Continue c2
            | Some o' \<Rightarrow>
                (case GetPointers o' (params c2) of
                   Inr pointers \<Rightarrow> Continue (addOwners pointers record c2)
                 | Inl q \<Rightarrow> Crash q)))"

text \<open>
  The read loop. It ends with the analyzer and the process state at \<open>Eof\<close>, with the
  error of \<open>ReadRecord\<close>, or with a panic.
\<close>

function readloop :: "world \<Rightarrow> TreeClimber \<Rightarrow> (TreeClimber \<times> world) outcome" where
  "readloop w c =
     (case ReadRecord w of
        Ok (record, w') \<Rightarrow>
          (case buildStep record c of
             Continue c' \<Rightarrow> readloop w' c'
           | Stop c' \<Rightarrow> Ok (c', w')
           | Crash q \<Rightarrow> Panic q)
      | Err e \<Rightarrow> Err e
      | Panic q \<Rightarrow> Panic q)"
  by pat_completeness auto
termination
proof (relation "measure (\<lambda>(w, c). length (reader w))", goal_cases)
  case 1
  show ?case by simp
next
  case (2 w c x r w' c')
  then have "ReadRecord w = Ok (r, w')" by simp
  then show ?case by (simp add: ReadRecord_consumes)
qed

declare readloop.simps [simp del]

text \<open>
  \<open>build\<close>: the header, fresh maps, then the read loop. \<open>NewTreeClimber\<close> calls it on
  the zero value of the struct.
\<close>

definition build :: "world \<Rightarrow> TreeClimber \<Rightarrow> (TreeClimber \<times> world) outcome" where
  "build w c =
     (case ReadHeader w of
        Err e \<Rightarrow> Err (ReadingHeader e)
      | Panic q \<Rightarrow> Panic q
      | Ok (u, w') \<Rightarrow>
          readloop w' (c\<lparr>memory := Map.empty, owners := Map.empty, finalizers := Map.empty\<rparr>))"

definition zeroTreeClimber :: TreeClimber where
  "zeroTreeClimber =
     \<lparr>params = None, memory = Map.empty, owners = Map.empty, visited = None,
      finalizers = Map.empty\<rparr>"

definition NewTreeClimber :: "world \<Rightarrow> (TreeClimber \<times> world) outcome" where
  "NewTreeClimber w = build w zeroTreeClimber"

section \<open>The queries\<close>

text \<open>
  Go's \<open>int\<close> is a 64-bit two's complement integer. What a query writes to standard
  output is a list of print statements executed, each with its arguments; the text written
  is a function of these (\<open>String\<close> of the record, \<open>%v\<close> of the error).
\<close>

type_synonym int64 = "64 word"

datatype print =
    PrintRecord gostring Record  \<comment> \<open>\<open>fmt.Printf("%s%s\\n", indent, s.String())\<close>\<close>
  | PrintError gostring error    \<comment> \<open>\<open>fmt.Printf("%s  %v\\n", indent, err)\<close>\<close>
  | PrintRoot Record             \<comment> \<open>\<open>fmt.Println(root.String())\<close>\<close>
  | PrintChild Record            \<comment> \<open>\<open>fmt.Printf("  %s\\n", child.String())\<close>\<close>

text \<open>A query runs on the analyzer and the output written so far, and changes both.\<close>

type_synonym process = "TreeClimber \<times> print list"

text \<open>
  The number of addresses not yet in \<open>visited\<close>: the measure by which the recursion of
  the two traversals ends.
\<close>

definition unseen :: "process \<Rightarrow> nat" where
  "unseen s = (case visited (fst s) of None \<Rightarrow> 0 | Some v \<Rightarrow> card (- v))"

text \<open>
  \<open>printOwners\<close>, with \<open>indent\<close> the concatenation of the variadic \<open>prefix\<close>, and the
  loop over \<open>c.owners[address]\<close>. The record is printed through
  \<open>s, _ := r.(fmt.Stringer)\<close>: for a record type without \<open>String\<close> the call \<open>s.String()\<close>
  is on a nil interface. Storing into a nil \<open>visited\<close> map panics.
\<close>

function printOwners :: "u64 \<Rightarrow> int64 \<Rightarrow> gostring \<Rightarrow> process \<Rightarrow> unit outcome \<times> process"
  and printOwnersLoop :: "Record list \<Rightarrow> int64 \<Rightarrow> gostring \<Rightarrow> process \<Rightarrow> unit outcome \<times> process"
where
  "printOwners address depth indent (c, out) =
     (if depth = 0 then (Ok (), (c, out))
      else
        (case visited c of
           None \<Rightarrow> (Panic NilMapAssignment, (c, out))
         | Some v \<Rightarrow>
             if address \<in> v then (Ok (), (c, out))
             else
               let c1 = c\<lparr>visited := Some (insert address v)\<rparr> in
               (case memory c1 address of
                  None \<Rightarrow> (Err (RecordNotFound address), (c1, out))
                | Some r \<Rightarrow>
                    if \<not> isStringer r then (Panic NilPointerDereference, (c1, out))
                    else
                      (case owners c1 address of
                         None \<Rightarrow> (Ok (), (c1, out @ [PrintRecord indent r]))
                       | Some os \<Rightarrow>
                           printOwnersLoop os depth indent (c1, out @ [PrintRecord indent r])))))"
| "printOwnersLoop [] depth indent s = (Ok (), s)"
| "printOwnersLoop (owner # rest) depth indent s =
     (case GetAddress owner of
        None \<Rightarrow> printOwnersLoop rest depth indent s
      | Some a \<Rightarrow>
          (case printOwners a (depth - 1) (indent @ [0x20, 0x20]) s of
             (Ok u, s') \<Rightarrow> printOwnersLoop rest depth indent s'
           | (Err e, (c', out')) \<Rightarrow>
               printOwnersLoop rest depth indent (c', out' @ [PrintError indent e])
           | (Panic q, s') \<Rightarrow> (Panic q, s')))"
  by pat_completeness auto

lemma unseen_pair [simp]:
  "unseen (c, out) = (case visited c of None \<Rightarrow> 0 | Some v \<Rightarrow> card (- v))"
  by (simp add: unseen_def)

lemma card_Compl_insert:
  fixes v :: "u64 set"
  assumes "a \<notin> v"
  shows "card (- insert a v) < card (- v)"
proof -
  have "card ((- v) - {a}) < card (- v)"
    by (rule card_Diff1_less) (use assms in simp_all)
  moreover have "- insert a v = (- v) - {a}" by auto
  ultimately show ?thesis by simp
qed

lemma printOwners_unseen:
  shows "printOwners_printOwnersLoop_dom (Inl (address, depth, indent, s)) \<Longrightarrow>
           unseen (snd (printOwners address depth indent s)) \<le> unseen s"
    and "printOwners_printOwnersLoop_dom (Inr (os, depth, indent, s)) \<Longrightarrow>
           unseen (snd (printOwnersLoop os depth indent s)) \<le> unseen s"
proof (induction address depth indent s and os depth indent s
       rule: printOwners_printOwnersLoop.pinduct)
  case (1 address depth indent c out)
  note eq = printOwners.psimps [OF "1.hyps"]
  show ?case
  proof (cases "depth = 0")
    case True
    then show ?thesis unfolding eq by simp
  next
    case d: False
    show ?thesis
    proof (cases "visited c")
      case None
      with d show ?thesis unfolding eq by simp
    next
      case (Some v)
      show ?thesis
      proof (cases "address \<in> v")
        case True
        with d Some show ?thesis unfolding eq by simp
      next
        case a: False
        define c1 where "c1 = c\<lparr>visited := Some (insert address v)\<rparr>"
        have less: "card (- insert address v) < card (- v)"
          using a by (rule card_Compl_insert)
        show ?thesis
        proof (cases "memory c1 address")
          case None
          with d Some a less show ?thesis unfolding eq by (simp add: c1_def Let_def)
        next
          case r: (Some r)
          show ?thesis
          proof (cases "isStringer r")
            case False
            with d Some a less r show ?thesis unfolding eq by (simp add: c1_def Let_def)
          next
            case str: True
            show ?thesis
            proof (cases "owners c1 address")
              case None
              with d Some a less r str show ?thesis unfolding eq by (simp add: c1_def Let_def)
            next
              case os: (Some os)
              have "unseen (snd (printOwnersLoop os depth indent (c1, out @ [PrintRecord indent r])))
                      \<le> unseen (c1, out @ [PrintRecord indent r])"
                using "1.IH" [OF d Some a c1_def r _ os] str by simp
              also have "\<dots> \<le> unseen (c, out)"
                using less Some by (simp add: c1_def)
              finally show ?thesis
                unfolding eq using d Some a r str os by (simp add: c1_def Let_def)
            qed
          qed
        qed
      qed
    qed
  qed
next
  case (2 depth indent s)
  then show ?case by (simp add: printOwnersLoop.psimps)
next
  case (3 owner rest depth indent s)
  note eq = printOwnersLoop.psimps(2) [OF "3.hyps"]
  show ?case
  proof (cases "GetAddress owner")
    case None
    with "3.IH"(1) show ?thesis unfolding eq by simp
  next
    case (Some a)
    obtain res s' where call: "printOwners a (depth - 1) (indent @ [0x20, 0x20]) s = (res, s')"
      by (cases "printOwners a (depth - 1) (indent @ [0x20, 0x20]) s") auto
    have le: "unseen s' \<le> unseen s"
      using "3.IH"(2) [OF Some] call by simp
    show ?thesis
    proof (cases res)
      case (Ok u)
      have "unseen (snd (printOwnersLoop rest depth indent s')) \<le> unseen s'"
        using "3.IH"(3) [OF Some call [symmetric] Ok] .
      with le show ?thesis unfolding eq using Some call Ok by simp
    next
      case (Err e)
      obtain c' out' where s': "s' = (c', out')" by (cases s') auto
      have "unseen (snd (printOwnersLoop rest depth indent (c', out' @ [PrintError indent e])))
              \<le> unseen (c', out' @ [PrintError indent e])"
        using "3.IH"(4) [OF Some call [symmetric] Err s' [symmetric]] .
      with le show ?thesis unfolding eq using Some call Err s' by simp
    next
      case (Panic q)
      with le show ?thesis unfolding eq using Some call by simp
    qed
  qed
qed

termination printOwners
proof (relation "(\<lambda>x. case x of Inl (a, d, i, s) \<Rightarrow> unseen s | Inr (os, d, i, s) \<Rightarrow> unseen s)
                  <*mlex*> measure (\<lambda>x. case x of Inl _ \<Rightarrow> 0 | Inr (os, d, i, s) \<Rightarrow> Suc (length os))",
       goal_cases)
  case 1
  show ?case by (simp add: wf_mlex)
next
  case (2 address depth indent c out v c1 r os)
  then show ?case by (auto intro!: mlex_less simp: card_Compl_insert)
next
  case 3
  then show ?case by (auto intro!: mlex_leq)
next
  case 4
  then show ?case by (auto intro!: mlex_leq)
next
  case (5 owner rest depth indent s a res s' u)
  then have "unseen s' \<le> unseen s"
    using printOwners_unseen(1) [of a "depth - 1" "indent @ [0x20, 0x20]" s] by (metis snd_conv)
  then show ?case by (auto intro!: mlex_leq)
next
  case (6 owner rest depth indent s a res s' e c' out')
  then have "unseen s' \<le> unseen s"
    using printOwners_unseen(1) [of a "depth - 1" "indent @ [0x20, 0x20]" s] by (metis snd_conv)
  with 6 show ?case by (auto intro!: mlex_leq simp: unseen_def)
qed


text \<open>
  The single-valued assertion \<open>childRecord.(*heapdump.StackFrame)\<close> on the result of a
  map lookup: it panics when the interface is nil (no entry in the map) and when the
  record is of another type.
\<close>

definition asStackFrame :: "Record option \<Rightarrow> panic + StackFrame" where
  "asStackFrame r = (case r of Some (StackFrameRecord f) \<Rightarrow> Inr f | _ \<Rightarrow> Inl InterfaceConversion)"

text \<open>
  The loop \<open>for childPtr != 0\<close> of \<open>printAnchors\<close>. It follows \<open>ChildPointer\<close> without
  consulting \<open>visited\<close>, and need not end: \<open>None\<close> is the run that never returns. The
  assertion stands before the test of \<open>found\<close>.
\<close>

partial_function (option) childWalk ::
  "TreeClimber \<Rightarrow> u64 \<Rightarrow> print list \<Rightarrow> (unit outcome \<times> print list) option" where
  "childWalk c childPtr out =
     (if childPtr = 0 then Some (Ok (), out)
      else
        let childRecord = memory c childPtr; found = (childRecord \<noteq> None) in
        (case asStackFrame childRecord of
           Inl q \<Rightarrow> Some (Panic q, out)
         | Inr child \<Rightarrow>
             if \<not> found then Some (Err (StackFrameNotFound childPtr), out)
             else childWalk c (ChildPointer child) (out @ [PrintChild (StackFrameRecord child)])))"

text \<open>
  The type switch of \<open>printAnchors\<close>. A result other than \<open>Ok\<close> is the \<open>return\<close> inside
  the \<open>StackFrame\<close> case (or its panic), which ends \<open>printAnchors\<close>.
\<close>

declare childWalk.simps [code]

definition printRoot :: "Record \<Rightarrow> TreeClimber \<Rightarrow> print list \<Rightarrow> (unit outcome \<times> print list) option" where
  "printRoot r c out =
     (case r of
        OtherRoot _ _ \<Rightarrow> Some (Ok (), out @ [PrintRoot r])
      | StackFrameRecord root \<Rightarrow> childWalk c (ChildPointer root) (out @ [PrintRoot r])
      | BssSegment _ _ _ \<Rightarrow> Some (Ok (), out @ [PrintRoot r])
      | DataSegment _ _ _ \<Rightarrow> Some (Ok (), out @ [PrintRoot r])
      | _ \<Rightarrow> Some (Ok (), out))"

text \<open>
  \<open>printAnchors\<close> and its loop over \<open>c.owners[address]\<close>. The recursive call is the
  statement \<open>c.printAnchors(a.GetAddress())\<close>: the error it returns is dropped.
\<close>

function printAnchors :: "u64 \<Rightarrow> process \<Rightarrow> (unit outcome \<times> process) option"
  and printAnchorsLoop :: "Record list \<Rightarrow> process \<Rightarrow> (unit outcome \<times> process) option"
where
  "printAnchors address (c, out) =
     (case visited c of
        None \<Rightarrow> Some (Panic NilMapAssignment, (c, out))
      | Some v \<Rightarrow>
          if address \<in> v then Some (Err (LoopError address), (c, out))
          else
            let c1 = c\<lparr>visited := Some (insert address v)\<rparr> in
            (case memory c1 address of
               None \<Rightarrow> Some (Err (RecordNotFound address), (c1, out))
             | Some r \<Rightarrow>
                 (case printRoot r c1 out of
                    None \<Rightarrow> None
                  | Some (Ok u, out1) \<Rightarrow>
                      (case owners c1 address of
                         None \<Rightarrow> Some (Ok (), (c1, out1))
                       | Some os \<Rightarrow> printAnchorsLoop os (c1, out1))
                  | Some (Err e, out1) \<Rightarrow> Some (Err e, (c1, out1))
                  | Some (Panic q, out1) \<Rightarrow> Some (Panic q, (c1, out1)))))"
| "printAnchorsLoop [] s = Some (Ok (), s)"
| "printAnchorsLoop (owner # rest) s =
     (case GetAddress owner of
        None \<Rightarrow> printAnchorsLoop rest s
      | Some a \<Rightarrow>
          (case printAnchors a s of
             None \<Rightarrow> None
           | Some (Panic q, s') \<Rightarrow> Some (Panic q, s')
           | Some (_, s') \<Rightarrow> printAnchorsLoop rest s'))"
  by pat_completeness auto

lemma printAnchors_unseen:
  shows "printAnchors_printAnchorsLoop_dom (Inl (address, s)) \<Longrightarrow>
           \<forall>res s'. printAnchors address s = Some (res, s') \<longrightarrow> unseen s' \<le> unseen s"
    and "printAnchors_printAnchorsLoop_dom (Inr (os, s)) \<Longrightarrow>
           \<forall>res s'. printAnchorsLoop os s = Some (res, s') \<longrightarrow> unseen s' \<le> unseen s"
proof (induction address s and os s rule: printAnchors_printAnchorsLoop.pinduct)
  case (1 address c out)
  note eq = printAnchors.psimps [OF "1.hyps"]
  show ?case
  proof (intro allI impI)
    fix res s'
    assume run: "printAnchors address (c, out) = Some (res, s')"
    show "unseen s' \<le> unseen (c, out)"
    proof (cases "visited c")
      case None
      with run have "s' = (c, out)" unfolding eq by auto
      then show ?thesis by simp
    next
      case (Some v)
      show ?thesis
      proof (cases "address \<in> v")
        case True
        with run Some have "s' = (c, out)" unfolding eq by auto
        then show ?thesis by simp
      next
        case a: False
        define c1 where "c1 = c\<lparr>visited := Some (insert address v)\<rparr>"
        have less: "unseen (c1, out') \<le> unseen (c, out)" for out'
          using card_Compl_insert [OF a] Some by (simp add: c1_def)
        show ?thesis
        proof (cases "memory c1 address")
          case None
          with run Some a have "s' = (c1, out)" unfolding eq by (auto simp: c1_def Let_def)
          with less show ?thesis by simp
        next
          case r: (Some r)
          show ?thesis
          proof (cases "printRoot r c1 out")
            case None
            with run Some a r show ?thesis unfolding eq by (simp add: c1_def Let_def)
          next
            case pr: (Some x)
            obtain o1 out1 where x: "x = (o1, out1)" by (cases x) auto
            show ?thesis
            proof (cases o1)
              case (Ok u)
              show ?thesis
              proof (cases "owners c1 address")
                case None
                with run Some a r pr x Ok have "s' = (c1, out1)"
                  unfolding eq by (auto simp: c1_def Let_def)
                with less show ?thesis by simp
              next
                case os: (Some os)
                from run Some a r pr x Ok os
                have "printAnchorsLoop os (c1, out1) = Some (res, s')"
                  unfolding eq by (simp add: c1_def Let_def)
                then have "unseen s' \<le> unseen (c1, out1)"
                  using "1.IH" [OF Some a c1_def r pr x [symmetric] Ok os] by blast
                with less [of out1] show ?thesis by simp
              qed
            next
              case (Err e)
              with run Some a r pr x have "s' = (c1, out1)"
                unfolding eq by (auto simp: c1_def Let_def)
              with less show ?thesis by simp
            next
              case (Panic q)
              with run Some a r pr x have "s' = (c1, out1)"
                unfolding eq by (auto simp: c1_def Let_def)
              with less show ?thesis by simp
            qed
          qed
        qed
      qed
    qed
  qed
next
  case (2 s)
  then show ?case by (simp add: printAnchorsLoop.psimps)
next
  case (3 owner rest s)
  note eq = printAnchorsLoop.psimps(2) [OF "3.hyps"]
  show ?case
  proof (intro allI impI)
    fix res s'
    assume run: "printAnchorsLoop (owner # rest) s = Some (res, s')"
    show "unseen s' \<le> unseen s"
    proof (cases "GetAddress owner")
      case None
      with run have "printAnchorsLoop rest s = Some (res, s')" unfolding eq by simp
      with "3.IH"(1) [OF None] show ?thesis by blast
    next
      case (Some a)
      show ?thesis
      proof (cases "printAnchors a s")
        case None
        with run Some show ?thesis unfolding eq by simp
      next
        case call: (Some x)
        obtain o1 s1 where x: "x = (o1, s1)" by (cases x) auto
        have le: "unseen s1 \<le> unseen s"
          using "3.IH"(2) [OF Some] call x by blast
        show ?thesis
        proof (cases o1)
          case (Ok u)
          with run Some call x have "printAnchorsLoop rest s1 = Some (res, s')"
            unfolding eq by simp
          then have "unseen s' \<le> unseen s1"
            using "3.IH"(3) [OF Some call x [symmetric] Ok] by blast
          with le show ?thesis by simp
        next
          case (Err e)
          with run Some call x have "printAnchorsLoop rest s1 = Some (res, s')"
            unfolding eq by simp
          then have "unseen s' \<le> unseen s1"
            using "3.IH"(4) [OF Some call x [symmetric] Err] by blast
          with le show ?thesis by simp
        next
          case (Panic q)
          with run Some call x have "s' = s1" unfolding eq by auto
          with le show ?thesis by simp
        qed
      qed
    qed
  qed
qed

termination printAnchors
proof (relation "(\<lambda>x. case x of Inl (a, s) \<Rightarrow> unseen s | Inr (os, s) \<Rightarrow> unseen s)
                  <*mlex*> measure (\<lambda>x. case x of Inl _ \<Rightarrow> 0 | Inr (os, s) \<Rightarrow> Suc (length os))",
       goal_cases)
  case 1
  show ?case by (simp add: wf_mlex)
next
  case (2 address c out v c1 r x o1 out1 u os)
  then show ?case by (auto intro!: mlex_less simp: card_Compl_insert)
next
  case 3
  then show ?case by (auto intro!: mlex_leq)
next
  case 4
  then show ?case by (auto intro!: mlex_leq)
next
  case (5 owner rest s a x o1 s1 u)
  then have call: "printAnchors a s = Some (o1, s1)"
    and dom: "printAnchors_printAnchorsLoop_dom (Inl (a, s))" by simp_all
  have "unseen s1 \<le> unseen s"
    using printAnchors_unseen(1) [OF dom] call by blast
  then show ?case by (auto intro!: mlex_leq)
next
  case (6 owner rest s a x o1 s1 e)
  then have call: "printAnchors a s = Some (o1, s1)"
    and dom: "printAnchors_printAnchorsLoop_dom (Inl (a, s))" by simp_all
  have "unseen s1 \<le> unseen s"
    using printAnchors_unseen(1) [OF dom] call by blast
  then show ?case by (auto intro!: mlex_leq)
qed


text \<open>
  The exported queries. Each allocates \<open>visited\<close> on entry; the deferred function sets
  it to nil on every way out, a panic included.
\<close>

definition PrintOwners :: "u64 \<Rightarrow> int64 \<Rightarrow> process \<Rightarrow> unit outcome \<times> process" where
  "PrintOwners address depth s =
     (case s of (c, out) \<Rightarrow>
        (case printOwners address (if 0 <s depth then depth + 1 else depth) []
                (c\<lparr>visited := Some {}\<rparr>, out) of
           (res, (c', out')) \<Rightarrow> (res, (c'\<lparr>visited := None\<rparr>, out'))))"

definition PrintAnchors :: "u64 \<Rightarrow> process \<Rightarrow> (unit outcome \<times> process) option" where
  "PrintAnchors address s =
     (case s of (c, out) \<Rightarrow>
        (case printAnchors address (c\<lparr>visited := Some {}\<rparr>, out) of
           None \<Rightarrow> None
         | Some (res, (c', out')) \<Rightarrow> Some (res, (c'\<lparr>visited := None\<rparr>, out'))))"

text \<open>
  \<open>%x\<close> and \<open>%d\<close> of an unsigned integer, and \<open>strings.Join\<close>.
\<close>

definition digit :: "nat \<Rightarrow> byte" where
  "digit n = (if n < 10 then of_nat (48 + n) else of_nat (87 + n))"

function hexadecimal :: "nat \<Rightarrow> gostring" where
  "hexadecimal n = (if n < 16 then [digit n] else hexadecimal (n div 16) @ [digit (n mod 16)])"
  by pat_completeness auto
termination
  by (relation "measure id") auto

function decimal :: "nat \<Rightarrow> gostring" where
  "decimal n = (if n < 10 then [digit n] else decimal (n div 10) @ [digit (n mod 10)])"
  by pat_completeness auto
termination
  by (relation "measure id") auto

declare hexadecimal.simps [simp del] decimal.simps [simp del]

fun Join :: "gostring list \<Rightarrow> gostring \<Rightarrow> gostring" where
  "Join [] sep = []"
| "Join [x] sep = x"
| "Join (x # y # ys) sep = x @ sep @ Join (y # ys) sep"

text \<open>
  \<open>Hexdump\<close>. The formatter \<open>hex.Dump\<close> of the Go library is a parameter. Each field adds
  \<open>"Pointer: 0x%x\\n"\<close>.
\<close>

definition Hexdump :: "(byte list \<Rightarrow> gostring) \<Rightarrow> u64 \<Rightarrow> TreeClimber \<Rightarrow> error + gostring" where
  "Hexdump hexDump address c =
     (case memory c address of
        None \<Rightarrow> Inl (RecordNotFound address)
      | Some r \<Rightarrow>
          (case asOwner r of
             None \<Rightarrow> Inl NoContents
           | Some o' \<Rightarrow>
               Inr (foldl (\<lambda>ret field. ret @
                             [0x50, 0x6f, 0x69, 0x6e, 0x74, 0x65, 0x72, 0x3a, 0x20, 0x30, 0x78]
                             @ hexadecimal (unat field) @ [0x0a])
                      (hexDump (oContents o')) (oFields o'))))"

text \<open>
  \<open>fullStack\<close>, used for the label of a stack frame in the graph: the same walk as in
  \<open>printAnchors\<close>, collecting \<open>"[%d] %s"\<close> of each frame.
\<close>

partial_function (option) fullStackLoop ::
  "TreeClimber \<Rightarrow> u64 \<Rightarrow> gostring list \<Rightarrow> (panic + gostring list) option" where
  "fullStackLoop c framePtr out =
     (if framePtr = 0 then Some (Inr out)
      else
        let frameRecord = memory c framePtr; found = (frameRecord \<noteq> None) in
        (case asStackFrame frameRecord of
           Inl q \<Rightarrow> Some (Inl q)
         | Inr frame \<Rightarrow>
             if \<not> found then Some (Inr out)
             else fullStackLoop c (ChildPointer frame)
                    (out @ [[0x5b] @ decimal (unat (Depth frame)) @ [0x5d, 0x20] @ Name frame])))"

declare fullStackLoop.simps [code]

definition fullStack :: "TreeClimber \<Rightarrow> u64 \<Rightarrow> gostring \<Rightarrow> (panic + gostring) option" where
  "fullStack c address separator =
     (case fullStackLoop c address [] of
        None \<Rightarrow> None
      | Some (Inl q) \<Rightarrow> Some (Inl q)
      | Some (Inr out) \<Rightarrow> Some (Inr (Join out separator)))"

section \<open>Properties of the build\<close>

text \<open>
  \<open>reads w c pre r c0\<close>: the read loop, started on the input \<open>w\<close> with the analyzer
  \<open>c\<close>, decodes the records \<open>pre\<close> and then the record \<open>r\<close>; \<open>c0\<close> is the analyzer at
  the moment \<open>r\<close> has been decoded and not yet processed. \<open>decodes\<close> is the same for a
  whole dump, header included, read by \<open>NewTreeClimber\<close>.
\<close>

inductive reads :: "world \<Rightarrow> TreeClimber \<Rightarrow> Record list \<Rightarrow> Record \<Rightarrow> TreeClimber \<Rightarrow> bool" where
  first: "ReadRecord w = Ok (r, w') \<Longrightarrow> reads w c [] r c"
| later: "ReadRecord w = Ok (r0, w') \<Longrightarrow> buildStep r0 c = Continue c' \<Longrightarrow> reads w' c' pre r c0
          \<Longrightarrow> reads w c (r0 # pre) r c0"

definition decodes :: "world \<Rightarrow> Record list \<Rightarrow> Record \<Rightarrow> TreeClimber \<Rightarrow> bool" where
  "decodes w pre r c0 \<longleftrightarrow> (\<exists>w'. ReadHeader w = Ok ((), w') \<and> reads w' zeroTreeClimber pre r c0)"

lemma addOwner_fields [simp]:
  "params (addOwner a r c) = params c" "memory (addOwner a r c) = memory c"
  "visited (addOwner a r c) = visited c" "finalizers (addOwner a r c) = finalizers c"
  by (simp_all add: addOwner_def)

lemma addOwners_fields [simp]:
  "params (addOwners ps r c) = params c" "memory (addOwners ps r c) = memory c"
  "visited (addOwners ps r c) = visited c" "finalizers (addOwners ps r c) = finalizers c"
  by (induction ps r c rule: addOwners.induct) simp_all

lemma addOwners_zero [simp]: "owners (addOwners ps r c) 0 = owners c 0"
  by (induction ps r c rule: addOwners.induct) (simp_all add: addOwner_def)

text \<open>The owners index only grows: an entry is extended at its end, never removed.\<close>

definition extends :: "TreeClimber \<Rightarrow> TreeClimber \<Rightarrow> bool" where
  "extends c c' \<longleftrightarrow> (\<forall>t rs. owners c t = Some rs \<longrightarrow> (\<exists>rs'. owners c' t = Some (rs @ rs')))"

lemma extends_refl: "extends c c"
  by (auto simp: extends_def)

lemma extends_trans: "extends c c' \<Longrightarrow> extends c' c'' \<Longrightarrow> extends c c''"
  unfolding extends_def by (metis append.assoc)

lemma extends_addOwner: "extends c (addOwner a r c)"
  by (auto simp: extends_def addOwner_def)

lemma extends_addOwners: "extends c (addOwners ps r c)"
proof (induction ps r c rule: addOwners.induct)
  case (1 r c)
  show ?case by (simp add: extends_refl)
next
  case (2 p ps r c)
  show ?case
  proof (cases "p = 0")
    case True
    with 2 show ?thesis by simp
  next
    case False
    with 2 have "extends (addOwner p r c) (addOwners (p # ps) r c)" by simp
    with extends_addOwner show ?thesis by (rule extends_trans)
  qed
qed

lemma addOwner_member: "\<exists>rs. owners (addOwner t r c) t = Some rs \<and> r \<in> set rs"
  by (simp add: addOwner_def)

lemma addOwners_member:
  "t \<in> set ps \<Longrightarrow> t \<noteq> 0 \<Longrightarrow> \<exists>rs. owners (addOwners ps r c) t = Some rs \<and> r \<in> set rs"
proof (induction ps r c rule: addOwners.induct)
  case (1 r c)
  then show ?case by simp
next
  case (2 p ps r c)
  show ?case
  proof (cases "t \<in> set ps")
    case True
    with 2 show ?thesis by simp
  next
    case False
    with "2.prems" have p: "p = t" "p \<noteq> 0" by auto
    obtain rs where rs: "owners (addOwner t r c) t = Some rs" "r \<in> set rs"
      using addOwner_member by blast
    have "extends (addOwner t r c) (addOwners ps r (addOwner t r c))"
      by (rule extends_addOwners)
    with rs obtain rs' where "owners (addOwners ps r (addOwner t r c)) t = Some (rs @ rs')"
      by (auto simp: extends_def)
    with rs p show ?thesis by simp
  qed
qed

lemma typeSwitch_fields [simp]:
  "memory (typeSwitch r c) = memory c" "owners (typeSwitch r c) = owners c"
  "visited (typeSwitch r c) = visited c"
  by (simp_all add: typeSwitch_def split: Record.splits)

fun isDumpParams :: "Record \<Rightarrow> bool" where
  "isDumpParams (DumpParamsRecord _) = True"
| "isDumpParams _ = False"

lemma typeSwitch_params: "\<not> isDumpParams r \<Longrightarrow> params (typeSwitch r c) = params c"
  by (cases r) (simp_all add: typeSwitch_def)

lemma insertAddressable_fields [simp]:
  "params (insertAddressable r c) = params c" "owners (insertAddressable r c) = owners c"
  "visited (insertAddressable r c) = visited c" "finalizers (insertAddressable r c) = finalizers c"
  by (simp_all add: insertAddressable_def split: option.splits)

lemma insertAddressable_memory:
  "memory (insertAddressable r c) a = (if GetAddress r = Some a then Some r else memory c a)"
  by (auto simp: insertAddressable_def split: option.splits)

text \<open>What one step of the loop does, when it goes on.\<close>

lemma buildStep_Continue:
  assumes "buildStep r c = Continue c'"
  shows "r \<noteq> Eof"
    and "memory c' a = (if GetAddress r = Some a then Some r else memory c a)"
    and "\<not> isDumpParams r \<Longrightarrow> params c' = params c"
    and "extends c c'"
    and "owners c' 0 = owners c 0"
    and "visited c' = visited c"
  using assms
  by (auto simp: buildStep_def Let_def insertAddressable_memory typeSwitch_params
        extends_refl extends_def [of c "insertAddressable r (typeSwitch r c)"]
      intro: extends_trans [OF _ extends_addOwners]
      split: if_splits option.splits sum.splits)


lemma asOwner_not_DumpParams: "asOwner r = Some o' \<Longrightarrow> \<not> isDumpParams r"
  by (cases r) simp_all

lemma asOwner_not_Eof: "asOwner r = Some o' \<Longrightarrow> r \<noteq> Eof"
  by (cases r) simp_all

lemma reads_params:
  "reads w c pre r c0 \<Longrightarrow> \<forall>x \<in> set pre. \<not> isDumpParams x \<Longrightarrow> params c0 = params c"
  by (induction rule: reads.induct) (auto dest: buildStep_Continue(3))

lemma reads_readloop:
  "reads w c pre r c0 \<Longrightarrow> \<exists>w1 w2. ReadRecord w1 = Ok (r, w2) \<and>
     readloop w c = (case buildStep r c0 of
                       Continue c' \<Rightarrow> readloop w2 c' | Stop c' \<Rightarrow> Ok (c', w2) | Crash q \<Rightarrow> Panic q)"
proof (induction rule: reads.induct)
  case (first w r w' c)
  then show ?case by (auto simp: readloop.simps [of w c])
next
  case (later w r0 w' c c' pre r c0)
  then show ?case by (auto simp: readloop.simps [of w c])
qed

lemma buildStep_owner_nil:
  "asOwner r = Some o' \<Longrightarrow> params c = None \<Longrightarrow> buildStep r c = Crash NilPointerDereference"
  by (auto simp: buildStep_def Let_def GetPointers_def GetPointerInfo_def typeSwitch_params
      dest: asOwner_not_DumpParams asOwner_not_Eof)

lemma readloop_owner_before_params:
  assumes "reads w c pre r c0" and "asOwner r = Some o'" and "params c0 = None"
  shows "readloop w c = Panic NilPointerDereference"
  using reads_readloop [OF assms(1)] buildStep_owner_nil [OF assms(2,3)] by auto

lemma zeroTreeClimber_fresh:
  "zeroTreeClimber\<lparr>memory := Map.empty, owners := Map.empty, finalizers := Map.empty\<rparr>
     = zeroTreeClimber"
  by (simp add: zeroTreeClimber_def)

lemma NewTreeClimber_readloop:
  "ReadHeader w = Ok ((), w') \<Longrightarrow> NewTreeClimber w = readloop w' zeroTreeClimber"
  by (simp add: NewTreeClimber_def build_def zeroTreeClimber_fresh)

text \<open>
  C10. If an Owner record (Object, StackFrame, DataSegment or BssSegment) is decoded when
  no DumpParams record has been decoded before it, the build panics with a nil pointer
  dereference instead of returning an error. The field list and the contents of the
  record play no part: the dereference stands before the loop over the fields.
\<close>

theorem owner_before_DumpParams_panics:
  assumes "decodes w pre r c0"
    and "\<forall>x \<in> set pre. \<not> isDumpParams x"
    and "asOwner r = Some o'"
  shows "NewTreeClimber w = Panic NilPointerDereference"
proof -
  from assms(1) obtain w' where h: "ReadHeader w = Ok ((), w')"
    and rd: "reads w' zeroTreeClimber pre r c0"
    by (auto simp: decodes_def)
  from rd assms(2) have "params c0 = params zeroTreeClimber" by (rule reads_params)
  then have "params c0 = None" by (simp add: zeroTreeClimber_def)
  with rd assms(3) have "readloop w' zeroTreeClimber = Panic NilPointerDereference"
    by (rule readloop_owner_before_params)
  with h show ?thesis by (simp add: NewTreeClimber_readloop)
qed


lemma buildStep_Stop: "buildStep r c = Stop c' \<Longrightarrow> r = Eof \<and> c' = c"
  by (auto simp: buildStep_def Let_def split: if_splits option.splits sum.splits)

lemma readloop_extends:
  "readloop w c = Ok (cf, wend) \<Longrightarrow> extends c cf \<and> owners cf 0 = owners c 0"
proof (induction w c rule: readloop.induct)
  case (1 w c)
  from "1.prems" obtain r w' where rr: "ReadRecord w = Ok (r, w')"
    by (auto simp: readloop.simps [of w c] split: outcome.splits)
  show ?case
  proof (cases "buildStep r c")
    case (Continue c')
    with rr "1.prems" have run: "readloop w' c' = Ok (cf, wend)"
      by (simp add: readloop.simps [of w c])
    from "1.IH" [OF rr refl Continue run]
    have "extends c' cf" and "owners cf 0 = owners c' 0" by simp_all
    with buildStep_Continue(4,5) [OF Continue] show ?thesis
      by (auto intro: extends_trans)
  next
    case (Stop c')
    with rr "1.prems" have "cf = c'" by (simp add: readloop.simps [of w c])
    with buildStep_Stop [OF Stop] show ?thesis by (simp add: extends_refl)
  next
    case (Crash q)
    with rr "1.prems" show ?thesis by (simp add: readloop.simps [of w c])
  qed
qed

lemma buildStep_owner:
  assumes "asOwner r = Some o'" and "GetPointers o' (params c) = Inr ps"
  shows "buildStep r c = Continue (addOwners ps r (insertAddressable r (typeSwitch r c)))"
  using assms asOwner_not_Eof [OF assms(1)] asOwner_not_DumpParams [OF assms(1)]
  by (simp add: buildStep_def Let_def typeSwitch_params)

text \<open>
  C8. After a successful build, every Owner record decoded from the dump is a member of
  \<open>owners[t]\<close> for every non-zero target \<open>t\<close> that the pointer extractor yields for it
  with the DumpParams in force when the record is processed. Zero targets are left out:
  \<open>owners\<close> has no entry for 0.
\<close>

theorem owners_index_complete:
  assumes ok: "NewTreeClimber w = Ok (cf, wend)"
    and dec: "decodes w pre r c0"
    and own: "asOwner r = Some o'"
    and ptr: "GetPointers o' (params c0) = Inr pointers"
  shows "(\<forall>t \<in> set pointers. t \<noteq> 0 \<longrightarrow> (\<exists>rs. owners cf t = Some rs \<and> r \<in> set rs))
         \<and> owners cf 0 = None"
proof -
  from dec obtain w' where h: "ReadHeader w = Ok ((), w')"
    and rd: "reads w' zeroTreeClimber pre r c0"
    by (auto simp: decodes_def)
  from h ok have run: "readloop w' zeroTreeClimber = Ok (cf, wend)"
    by (simp add: NewTreeClimber_readloop)
  define c1 where "c1 = addOwners pointers r (insertAddressable r (typeSwitch r c0))"
  have step: "buildStep r c0 = Continue c1"
    unfolding c1_def using own ptr by (rule buildStep_owner)
  from reads_readloop [OF rd] step run obtain w2 where "readloop w2 c1 = Ok (cf, wend)"
    by auto
  then have ext: "extends c1 cf" by (simp add: readloop_extends)
  have "\<exists>rs. owners cf t = Some rs \<and> r \<in> set rs" if "t \<in> set pointers" "t \<noteq> 0" for t
  proof -
    from that obtain rs where "owners c1 t = Some rs" "r \<in> set rs"
      unfolding c1_def using addOwners_member by blast
    with ext obtain rs' where "owners cf t = Some (rs @ rs')"
      unfolding extends_def by blast
    with \<open>r \<in> set rs\<close> show ?thesis by simp
  qed
  moreover from run have "owners cf 0 = owners zeroTreeClimber 0"
    by (simp add: readloop_extends)
  then have "owners cf 0 = None" by (simp add: zeroTreeClimber_def)
  ultimately show ?thesis by blast
qed

lemma find_snoc:
  "find P (xs @ [x]) = (case find P xs of Some y \<Rightarrow> Some y | None \<Rightarrow> if P x then Some x else None)"
  by (induction xs) auto

lemma reads_memory:
  "reads w c pre r c0 \<Longrightarrow>
     memory c0 a = (case find (\<lambda>x. GetAddress x = Some a) (rev pre) of
                      Some x \<Rightarrow> Some x | None \<Rightarrow> memory c a)"
proof (induction rule: reads.induct)
  case (first w r w' c)
  show ?case by simp
next
  case (later w r0 w' c c' pre r c0)
  from buildStep_Continue(2) [OF later.hyps(2)]
  have "memory c' a = (if GetAddress r0 = Some a then Some r0 else memory c a)" .
  with later.IH show ?case
    by (simp add: find_snoc split: option.splits)
qed

lemma reads_Eof:
  "reads w c pre Eof c0 \<Longrightarrow> \<exists>wend. readloop w c = Ok (c0, wend)"
  using reads_readloop [of w c pre Eof c0] by (auto simp: buildStep_def)

lemma find_skip: "\<forall>y \<in> set zs. \<not> P y \<Longrightarrow> find P (zs @ rest) = find P rest"
  by (induction zs) auto

lemma find_last_occurrence:
  assumes "P x" and "\<forall>y \<in> set ys. \<not> P y"
  shows "find P (rev (xs @ x # ys)) = Some x"
proof -
  have "find P (rev ys @ x # rev xs) = find P (x # rev xs)"
    using assms(2) by (intro find_skip) simp
  with assms(1) show ?thesis by simp
qed

text \<open>
  C1, as the code has it. \<open>OtherRoot\<close> has a method \<open>GetAddress\<close> and so is Addressable:
  the build inserts every decoded OtherRoot record into \<open>memory\<close> at its address. After a
  successful build, \<open>memory[a]\<close> is the OtherRoot record with address \<open>a\<close>, unless a later
  record of the dump has the same address.
\<close>

theorem OtherRoot_in_memory:
  assumes "decodes w (xs @ OtherRoot d a # ys) Eof cf"
    and "\<forall>y \<in> set ys. GetAddress y \<noteq> Some a"
  shows "(\<exists>wend. NewTreeClimber w = Ok (cf, wend)) \<and> memory cf a = Some (OtherRoot d a)"
proof -
  from assms(1) obtain w' where h: "ReadHeader w = Ok ((), w')"
    and rd: "reads w' zeroTreeClimber (xs @ OtherRoot d a # ys) Eof cf"
    by (auto simp: decodes_def)
  from reads_Eof [OF rd] h have "\<exists>wend. NewTreeClimber w = Ok (cf, wend)"
    by (simp add: NewTreeClimber_readloop)
  moreover have "find (\<lambda>x. GetAddress x = Some a) (rev (xs @ OtherRoot d a # ys))
                   = Some (OtherRoot d a)"
    using assms(2) by (intro find_last_occurrence) simp_all
  with reads_memory [OF rd, of a] have "memory cf a = Some (OtherRoot d a)" by simp
  ultimately show ?thesis by blast
qed


lemma outcome_caseD:
  "(case m of Ok (x, w) \<Rightarrow> P x w | Err e \<Rightarrow> False | Panic q \<Rightarrow> False) \<Longrightarrow> \<exists>x w. m = Ok (x, w) \<and> P x w"
  by (cases m) auto

definition ownerFirstDump :: world where
  "ownerFirstDump =
     \<lparr>reader = Header @ [1, 0x10, 0, 0] @ [6, 0, 8, 0, 0, 0, 0, 1] @ [0],
      oidMap = Map.empty, nameMap = Map.empty\<rparr>"

theorem owner_before_DumpParams_panics_witness:
  "decodes ownerFirstDump [] (Object 0x10 [] [] []) zeroTreeClimber
   \<and> NewTreeClimber ownerFirstDump = Panic NilPointerDereference"
proof -
  have "case ReadHeader ownerFirstDump of
          Ok (u, w1) \<Rightarrow> (case ReadRecord w1 of Ok (r, w2) \<Rightarrow> r = Object 0x10 [] [] [] | _ \<Rightarrow> False)
        | _ \<Rightarrow> False"
    by code_simp
  then obtain w1 w2 where "ReadHeader ownerFirstDump = Ok ((), w1)"
    and "ReadRecord w1 = Ok (Object 0x10 [] [] [], w2)"
    by (fastforce dest!: outcome_caseD)
  then have d: "decodes ownerFirstDump [] (Object 0x10 [] [] []) zeroTreeClimber"
    by (auto simp: decodes_def intro: reads.first)
  from owner_before_DumpParams_panics [OF d] d show ?thesis by simp
qed

definition chainParams :: DumpParams where
  "chainParams = DumpParams False 8 0 0 [] [] 1"

definition chainDump :: world where
  "chainDump =
     \<lparr>reader = Header @ [6, 0, 8, 0, 0, 0, 0, 1]
        @ [1, 0x80, 0x40, 8, 0, 0x30, 0, 0, 0, 0, 0, 0, 1, 0, 0]
        @ [1, 0x80, 0x60, 0, 0] @ [0],
      oidMap = Map.empty, nameMap = Map.empty\<rparr>"

theorem owners_index_complete_witness:
  "\<exists>cf wend rs. NewTreeClimber chainDump = Ok (cf, wend)
     \<and> decodes chainDump [DumpParamsRecord chainParams]
           (Object 0x2000 [0, 0x30, 0, 0, 0, 0, 0, 0] [0] [])
           (zeroTreeClimber\<lparr>params := Some chainParams\<rparr>)
     \<and> owners cf 0x3000 = Some rs \<and> Object 0x2000 [0, 0x30, 0, 0, 0, 0, 0, 0] [0] [] \<in> set rs
     \<and> owners cf 0 = None"
proof -
  let ?A = "Object 0x2000 [0, 0x30, 0, 0, 0, 0, 0, 0] [0] []"
  let ?c0 = "zeroTreeClimber\<lparr>params := Some chainParams\<rparr>"
  have "case ReadHeader chainDump of
          Ok (u, w1) \<Rightarrow>
            (case ReadRecord w1 of
               Ok (r1, w2) \<Rightarrow> r1 = DumpParamsRecord chainParams \<and>
                 (case ReadRecord w2 of Ok (r2, w3) \<Rightarrow> r2 = ?A | _ \<Rightarrow> False)
             | _ \<Rightarrow> False)
        | _ \<Rightarrow> False"
    by code_simp
  then obtain w1 w2 w3 where h: "ReadHeader chainDump = Ok ((), w1)"
    and r1: "ReadRecord w1 = Ok (DumpParamsRecord chainParams, w2)"
    and r2: "ReadRecord w2 = Ok (?A, w3)"
    by (fastforce dest!: outcome_caseD)
  have step: "buildStep (DumpParamsRecord chainParams) zeroTreeClimber = Continue ?c0"
    by (simp add: buildStep_def typeSwitch_def insertAddressable_def)
  have d: "decodes chainDump [DumpParamsRecord chainParams] ?A ?c0"
    unfolding decodes_def using h reads.later [OF r1 step reads.first [OF r2]] by blast
  have "case NewTreeClimber chainDump of Ok x \<Rightarrow> True | _ \<Rightarrow> False"
    by code_simp
  then obtain cf wend where ok: "NewTreeClimber chainDump = Ok (cf, wend)"
    by (auto split: outcome.splits)
  have own: "asOwner ?A = Some (Owner 0x2000 [0, 0x30, 0, 0, 0, 0, 0, 0] [0])"
    by simp
  have ptr: "GetPointers (Owner 0x2000 [0, 0x30, 0, 0, 0, 0, 0, 0] [0]) (params ?c0) = Inr [0x3000]"
    by code_simp
  from owners_index_complete [OF ok d own ptr] ok d show ?thesis by auto
qed

definition otherRootDump :: world where
  "otherRootDump =
     \<lparr>reader = Header @ [2, 1, 0x78, 0x10] @ [0], oidMap = Map.empty, nameMap = Map.empty\<rparr>"

text \<open>
  A dump of one OtherRoot record with description \<open>"x"\<close> and address \<open>0x10\<close>: after the
  build, \<open>memory[0x10]\<close> is that OtherRoot record.
\<close>

theorem OtherRoot_not_in_memory_counterexample:
  "(case NewTreeClimber otherRootDump of Ok (c, w) \<Rightarrow> memory c 0x10 | _ \<Rightarrow> None)
     = Some (OtherRoot [0x78] 0x10)"
  by code_simp

theorem OtherRoot_in_memory_witness:
  "\<exists>cf wend. decodes otherRootDump [OtherRoot [0x78] 0x10] Eof cf
     \<and> NewTreeClimber otherRootDump = Ok (cf, wend)
     \<and> memory cf 0x10 = Some (OtherRoot [0x78] 0x10)"
proof -
  let ?R = "OtherRoot [0x78] 0x10"
  let ?cf = "zeroTreeClimber\<lparr>memory := [0x10 \<mapsto> ?R]\<rparr>"
  have "case ReadHeader otherRootDump of
          Ok (u, w1) \<Rightarrow>
            (case ReadRecord w1 of
               Ok (r1, w2) \<Rightarrow> r1 = ?R \<and>
                 (case ReadRecord w2 of Ok (r2, w3) \<Rightarrow> r2 = Eof | _ \<Rightarrow> False)
             | _ \<Rightarrow> False)
        | _ \<Rightarrow> False"
    by code_simp
  then obtain w1 w2 w3 where h: "ReadHeader otherRootDump = Ok ((), w1)"
    and r1: "ReadRecord w1 = Ok (?R, w2)"
    and r2: "ReadRecord w2 = Ok (Eof, w3)"
    by (fastforce dest!: outcome_caseD)
  have step: "buildStep ?R zeroTreeClimber = Continue ?cf"
    by (simp add: buildStep_def typeSwitch_def insertAddressable_def zeroTreeClimber_def)
  have d: "decodes otherRootDump ([] @ ?R # []) Eof ?cf"
    unfolding decodes_def using h reads.later [OF r1 step reads.first [OF r2]] by auto
  have "\<forall>y \<in> set ([] :: Record list). GetAddress y \<noteq> Some 0x10" by simp
  from OtherRoot_in_memory [OF d this] d show ?thesis by auto
qed


section \<open>Properties of the queries\<close>

text \<open>
  The walk along \<open>ChildPointer\<close>: it ends at 0, goes on at a stack frame, panics at an
  address without a record, and never returns once it is on a cycle of stack frames.
\<close>

lemma childWalk_zero: "childWalk c 0 out = Some (Ok (), out)"
  by (simp add: childWalk.simps)

lemma childWalk_frame:
  "p \<noteq> 0 \<Longrightarrow> memory c p = Some (StackFrameRecord f) \<Longrightarrow>
     childWalk c p out = childWalk c (ChildPointer f) (out @ [PrintChild (StackFrameRecord f)])"
  by (subst childWalk.simps) (simp add: asStackFrame_def)

lemma childWalk_missing:
  "p \<noteq> 0 \<Longrightarrow> memory c p = None \<Longrightarrow> childWalk c p out = Some (Panic InterfaceConversion, out)"
  by (subst childWalk.simps) (simp add: asStackFrame_def)

lemma childWalk_cycle_aux:
  assumes cyc: "\<forall>p \<in> S. p \<noteq> 0 \<and> (\<exists>f. memory c p = Some (StackFrameRecord f) \<and> ChildPointer f \<in> S)"
    and run: "childWalk c' p out = Some y"
  shows "c' = c \<longrightarrow> p \<notin> S"
proof (rule childWalk.raw_induct [where P = "\<lambda>c' p out y. c' = c \<longrightarrow> p \<notin> S", OF _ run],
       goal_cases)
  case (1 walk c' p out y)
  show ?case
  proof
    assume c': "c' = c"
    show "p \<notin> S"
    proof
      assume p: "p \<in> S"
      with cyc obtain f where "p \<noteq> 0" and m: "memory c p = Some (StackFrameRecord f)"
        and nx: "ChildPointer f \<in> S" by blast
      with "1"(2) c' have "walk c (ChildPointer f) (out @ [PrintChild (StackFrameRecord f)]) = Some y"
        by (simp add: asStackFrame_def)
      from "1"(1) [OF this] nx show False by simp
    qed
  qed
qed

lemma childWalk_cycle:
  assumes "\<forall>p \<in> S. p \<noteq> 0 \<and> (\<exists>f. memory c p = Some (StackFrameRecord f) \<and> ChildPointer f \<in> S)"
    and "p \<in> S"
  shows "childWalk c p out = None"
proof (cases "childWalk c p out")
  case None
  then show ?thesis .
next
  case (Some y)
  from childWalk_cycle_aux [OF assms(1) Some] assms(2) show ?thesis by simp
qed

definition cyclicFrame :: StackFrame where
  "cyclicFrame = StackFrame 0x10 0 0x10 [] 0 0 0 [0x66] []"

definition cyclicFrameDump :: world where
  "cyclicFrameDump =
     \<lparr>reader = Header @ [6, 0, 8, 0, 0, 0, 0, 1] @ [5, 0x10, 0, 0x10, 0, 0, 0, 0, 1, 0x66, 0] @ [0],
      oidMap = Map.empty, nameMap = Map.empty\<rparr>"

text \<open>
  C6. \<open>PrintOwners\<close> returns on every input: \<open>printOwners\<close> is a total function, by the
  measure \<open>unseen\<close>. \<open>PrintAnchors\<close> does not: on the dump of one stack frame at \<open>0x10\<close>
  whose \<open>ChildPointer\<close> is \<open>0x10\<close>, the call \<open>PrintAnchors(0x10)\<close> never returns.
\<close>

theorem PrintAnchors_never_returns:
  "(case NewTreeClimber cyclicFrameDump of
      Ok (c, w) \<Rightarrow> PrintAnchors 0x10 (c, [])
    | Err e \<Rightarrow> Some (Err e, (zeroTreeClimber, []))
    | Panic q \<Rightarrow> Some (Panic q, (zeroTreeClimber, []))) = None"
proof -
  have "case NewTreeClimber cyclicFrameDump of
          Ok (c, w) \<Rightarrow> memory c 0x10 = Some (StackFrameRecord cyclicFrame)
        | Err e \<Rightarrow> False | Panic q \<Rightarrow> False"
    by code_simp
  then obtain c w where ok: "NewTreeClimber cyclicFrameDump = Ok (c, w)"
    and m: "memory c 0x10 = Some (StackFrameRecord cyclicFrame)"
    by (fastforce dest!: outcome_caseD)
  let ?c1 = "c\<lparr>visited := Some {0x10}\<rparr>"
  have "\<forall>p \<in> {0x10}. p \<noteq> 0 \<and> (\<exists>f. memory ?c1 p = Some (StackFrameRecord f) \<and> ChildPointer f \<in> {0x10})"
    using m by (simp add: cyclicFrame_def)
  then have "childWalk ?c1 0x10 out = None" for out
    by (rule childWalk_cycle) simp
  then have "printAnchors 0x10 (c\<lparr>visited := Some {}\<rparr>, []) = None"
    using m by (simp add: printRoot_def cyclicFrame_def)
  then have "PrintAnchors 0x10 (c, []) = None"
    by (simp add: PrintAnchors_def)
  with ok show ?thesis by simp
qed

definition danglingFrameDump :: world where
  "danglingFrameDump =
     \<lparr>reader = Header @ [6, 0, 8, 0, 0, 0, 0, 1] @ [5, 0x10, 0, 0x20, 0, 0, 0, 0, 1, 0x66, 0] @ [0],
      oidMap = Map.empty, nameMap = Map.empty\<rparr>"

text \<open>
  C3. On the dump of one stack frame at \<open>0x10\<close> whose \<open>ChildPointer\<close> is \<open>0x20\<close>, where
  \<open>memory\<close> has no record at \<open>0x20\<close>, the call \<open>PrintAnchors(0x10)\<close> prints the frame and
  then panics in the type assertion; the error for the missing frame is never returned.
\<close>

theorem PrintAnchors_missing_child_panics:
  "(case NewTreeClimber danglingFrameDump of
      Ok (c, w) \<Rightarrow>
        (case PrintAnchors 0x10 (c, []) of
           Some (res, (c', out)) \<Rightarrow> Some (memory c 0x20, res, out)
         | None \<Rightarrow> None)
    | _ \<Rightarrow> None)
   = Some (None, Panic InterfaceConversion,
           [PrintRoot (StackFrameRecord (StackFrame 0x10 0 0x20 [] 0 0 0 [0x66] []))])"
  by code_simp






















text \<open>
  A traversal changes no field of the analyzer but \<open>visited\<close>.
\<close>

definition frame :: "process \<Rightarrow> process \<Rightarrow> bool" where
  "frame s s' \<longleftrightarrow> (\<exists>v. fst s' = (fst s)\<lparr>visited := v\<rparr>)"

lemma frame_refl: "frame s s"
  unfolding frame_def by (rule exI [of _ "visited (fst s)"]) simp

lemma frame_trans: "frame s s' \<Longrightarrow> frame s' s'' \<Longrightarrow> frame s s''"
  unfolding frame_def by auto

lemma frame_visited: "frame (c, out) (c\<lparr>visited := v\<rparr>, out')"
  unfolding frame_def by auto

lemma frame_out: "frame s (c', out') \<Longrightarrow> frame s (c', out'')"
  unfolding frame_def by auto

lemma printOwners_frame:
  shows "frame s (snd (printOwners address depth indent s))"
    and "frame s (snd (printOwnersLoop os depth indent s))"
proof (induction address depth indent s and os depth indent s
       rule: printOwners_printOwnersLoop.induct)
  case (1 address depth indent c out)
  show ?case
  proof (cases "depth \<noteq> 0 \<and> (\<exists>v. visited c = Some v \<and> address \<notin> v \<and>
           (\<exists>r. memory c address = Some r \<and> isStringer r \<and> (\<exists>os. owners c address = Some os)))")
    case True
    then obtain v r os where f: "depth \<noteq> 0" "visited c = Some v" "address \<notin> v"
      "memory c address = Some r" "isStringer r" "owners c address = Some os"
      by blast
    let ?c1 = "c\<lparr>visited := Some (insert address v)\<rparr>"
    have "frame (?c1, out @ [PrintRecord indent r])
            (snd (printOwnersLoop os depth indent (?c1, out @ [PrintRecord indent r])))"
      using "1.IH" [OF f(1,2,3) refl, of r os] f by simp
    with frame_visited [of c out "Some (insert address v)" "out @ [PrintRecord indent r]"]
    have "frame (c, out) (snd (printOwnersLoop os depth indent (?c1, out @ [PrintRecord indent r])))"
      by (rule frame_trans)
    with f show ?thesis by (simp add: Let_def)
  next
    case False
    then show ?thesis
      by (auto simp: Let_def frame_refl frame_visited split: option.splits)
  qed
next
  case (2 depth indent s)
  show ?case by (simp add: frame_refl)
next
  case (3 owner rest depth indent s)
  show ?case
  proof (cases "GetAddress owner")
    case None
    with "3.IH"(1) show ?thesis by simp
  next
    case (Some a)
    obtain res c' out' where call: "printOwners a (depth - 1) (indent @ [0x20, 0x20]) s = (res, (c', out'))"
      by (cases "printOwners a (depth - 1) (indent @ [0x20, 0x20]) s") auto
    have fr: "frame s (c', out')"
      using "3.IH"(2) [OF Some] call by simp
    show ?thesis
    proof (cases res)
      case (Ok u)
      have "frame (c', out') (snd (printOwnersLoop rest depth indent (c', out')))"
        using "3.IH"(3) [OF Some call [symmetric] Ok] .
      with fr show ?thesis using Some call Ok by (simp add: frame_trans)
    next
      case (Err e)
      have "frame (c', out' @ [PrintError indent e])
              (snd (printOwnersLoop rest depth indent (c', out' @ [PrintError indent e])))"
        using "3.IH"(4) [OF Some call [symmetric] Err refl] .
      with frame_out [OF fr, of "out' @ [PrintError indent e]"]
      have "frame s (snd (printOwnersLoop rest depth indent (c', out' @ [PrintError indent e])))"
        by (rule frame_trans)
      then show ?thesis using Some call Err by simp
    next
      case (Panic q)
      with fr show ?thesis using Some call by simp
    qed
  qed
qed

lemma PrintOwners_state:
  assumes "PrintOwners a d (c, out) = (res, (c1, out1))"
  shows "c1 = c\<lparr>visited := None\<rparr>"
proof -
  obtain r c' out' where call:
    "printOwners a (if 0 <s d then d + 1 else d) [] (c\<lparr>visited := Some {}\<rparr>, out) = (r, (c', out'))"
    by (metis surj_pair)
  from printOwners_frame(1) [of "(c\<lparr>visited := Some {}\<rparr>, out)" a "if 0 <s d then d + 1 else d" "[]"] call
  obtain v where "c' = c\<lparr>visited := v\<rparr>" by (auto simp: frame_def)
  with assms call show ?thesis by (simp add: PrintOwners_def)
qed

lemma PrintOwners_visited: "PrintOwners a d (c\<lparr>visited := v\<rparr>, out) = PrintOwners a d (c, out)"
  by (simp add: PrintOwners_def)


lemma printAnchors_frame:
  shows "\<forall>res s'. printAnchors address s = Some (res, s') \<longrightarrow> frame s s'"
    and "\<forall>res s'. printAnchorsLoop os s = Some (res, s') \<longrightarrow> frame s s'"
proof (induction address s and os s rule: printAnchors_printAnchorsLoop.induct)
  case (1 address c out)
  show ?case
  proof (intro allI impI)
    fix res s'
    assume run: "printAnchors address (c, out) = Some (res, s')"
    show "frame (c, out) s'"
    proof (cases "\<exists>v. visited c = Some v \<and> address \<notin> v \<and>
           (\<exists>r. memory c address = Some r \<and>
              (\<exists>u out1. printRoot r (c\<lparr>visited := Some (insert address v)\<rparr>) out = Some (Ok u, out1) \<and>
              (\<exists>os. owners c address = Some os)))")
      case True
      then obtain v r u out1 os where f: "visited c = Some v" "address \<notin> v"
        "memory c address = Some r"
        "printRoot r (c\<lparr>visited := Some (insert address v)\<rparr>) out = Some (Ok u, out1)"
        "owners c address = Some os"
        by blast
      let ?c1 = "c\<lparr>visited := Some (insert address v)\<rparr>"
      from run f have run': "printAnchorsLoop os (?c1, out1) = Some (res, s')"
        by (simp add: Let_def)
      have "\<forall>res s'. printAnchorsLoop os (?c1, out1) = Some (res, s') \<longrightarrow> frame (?c1, out1) s'"
        using "1.IH" [OF f(1,2) refl, of r "(Ok u, out1)" "Ok u" out1 u os] f by simp
      with run' have "frame (?c1, out1) s'" by blast
      with frame_visited [of c out "Some (insert address v)" out1] show ?thesis
        by (rule frame_trans)
    next
      case False
      with run show ?thesis
        by (auto simp: Let_def frame_refl frame_visited
            split: option.splits if_splits outcome.splits prod.splits)
    qed
  qed
next
  case (2 s)
  show ?case by (simp add: frame_refl)
next
  case (3 owner rest s)
  show ?case
  proof (intro allI impI)
    fix res s'
    assume run: "printAnchorsLoop (owner # rest) s = Some (res, s')"
    show "frame s s'"
    proof (cases "GetAddress owner")
      case None
      with run have "printAnchorsLoop rest s = Some (res, s')" by simp
      with "3.IH"(1) [OF None] show ?thesis by blast
    next
      case (Some a)
      from run Some obtain o1 s1 where call: "printAnchors a s = Some (o1, s1)"
        by (cases "printAnchors a s") auto
      have fr: "frame s s1" using "3.IH"(2) [OF Some] call by blast
      show ?thesis
      proof (cases o1)
        case (Ok u)
        with run Some call have "printAnchorsLoop rest s1 = Some (res, s')" by simp
        with "3.IH"(3) [OF Some call refl Ok] have "frame s1 s'" by blast
        with fr show ?thesis by (rule frame_trans)
      next
        case (Err e)
        with run Some call have "printAnchorsLoop rest s1 = Some (res, s')" by simp
        with "3.IH"(4) [OF Some call refl Err] have "frame s1 s'" by blast
        with fr show ?thesis by (rule frame_trans)
      next
        case (Panic q)
        with run Some call fr show ?thesis by simp
      qed
    qed
  qed
qed

lemma PrintAnchors_state:
  assumes "PrintAnchors a (c, out) = Some (res, (c1, out1))"
  shows "c1 = c\<lparr>visited := None\<rparr>"
proof -
  from assms obtain r c' out' where call:
    "printAnchors a (c\<lparr>visited := Some {}\<rparr>, out) = Some (r, (c', out'))"
    by (auto simp: PrintAnchors_def split: option.splits)
  with printAnchors_frame(1) [of a "(c\<lparr>visited := Some {}\<rparr>, out)"]
  obtain v where "c' = c\<lparr>visited := v\<rparr>" by (auto simp: frame_def)
  with assms call show ?thesis by (simp add: PrintAnchors_def)
qed

lemma PrintAnchors_visited: "PrintAnchors a (c\<lparr>visited := v\<rparr>, out) = PrintAnchors a (c, out)"
  by (simp add: PrintAnchors_def)

lemma Hexdump_visited: "Hexdump h x (c\<lparr>visited := v\<rparr>) = Hexdump h x c"
  by (simp add: Hexdump_def)

text \<open>
  C9. A query leaves the analyzer as it found it, with \<open>visited\<close> nil again, and its
  result does not depend on the \<open>visited\<close> left by an earlier query: after \<open>PrintOwners\<close>
  and \<open>PrintAnchors\<close> have run, the same \<open>PrintOwners\<close> and the same \<open>PrintAnchors\<close> give
  the same result and the same output again, and \<open>Hexdump\<close> gives what it gives on the
  analyzer before any query.
\<close>

theorem queries_repeatable:
  assumes "PrintOwners a d (c, []) = (r1, (c1, ys))"
    and "PrintAnchors b (c1, []) = Some (r2, (c2, zs))"
  shows "PrintOwners a d (c2, []) = (r1, (c2, ys))
         \<and> PrintAnchors b (c2, []) = Some (r2, (c2, zs))
         \<and> Hexdump h x c2 = Hexdump h x c"
proof -
  have c1: "c1 = c\<lparr>visited := None\<rparr>"
    using assms(1) by (rule PrintOwners_state)
  have "c2 = c1\<lparr>visited := None\<rparr>"
    using assms(2) by (rule PrintAnchors_state)
  with c1 have c2: "c2 = c1" by simp
  have "PrintOwners a d (c2, []) = PrintOwners a d (c, [])"
    unfolding c2 c1 by (rule PrintOwners_visited)
  moreover have "Hexdump h x c2 = Hexdump h x c"
    unfolding c2 c1 by (rule Hexdump_visited)
  ultimately show ?thesis using assms c2 by simp
qed

definition anchorDump :: world where
  "anchorDump =
     \<lparr>reader = Header @ [6, 0, 8, 0, 0, 0, 0, 1]
        @ [13, 0x80, 0xC0, 0x01, 8, 0, 0x70, 0, 0, 0, 0, 0, 0, 1, 0, 0]
        @ [1, 0x80, 0xE0, 0x01, 8, 0, 0x80, 0, 0, 0, 0, 0, 0, 1, 0, 0]
        @ [1, 0x80, 0x80, 0x02, 0, 0] @ [0],
      oidMap = Map.empty, nameMap = Map.empty\<rparr>"

theorem queries_repeatable_witness:
  "\<exists>c w c2 zs.
     NewTreeClimber anchorDump = Ok (c, w)
     \<and> PrintOwners 0x8000 (- 1) (c2, [])
         = (Ok (), (c2, [PrintRecord [] (Object 0x8000 [] [] []),
                         PrintRecord [0x20, 0x20] (Object 0x7000 [0, 0x80, 0, 0, 0, 0, 0, 0] [0] []),
                         PrintRecord [0x20, 0x20, 0x20, 0x20]
                           (BssSegment 0x6000 [0, 0x70, 0, 0, 0, 0, 0, 0] [0])]))
     \<and> PrintAnchors 0x8000 (c2, []) = Some (Ok (), (c2, zs))
     \<and> zs = [PrintRoot (BssSegment 0x6000 [0, 0x70, 0, 0, 0, 0, 0, 0] [0])]
     \<and> Hexdump (\<lambda>contents. contents) 0x6000 c2 = Hexdump (\<lambda>contents. contents) 0x6000 c"
proof -
  let ?ys = "[PrintRecord [] (Object 0x8000 [] [] []),
              PrintRecord [0x20, 0x20] (Object 0x7000 [0, 0x80, 0, 0, 0, 0, 0, 0] [0] []),
              PrintRecord [0x20, 0x20, 0x20, 0x20]
                (BssSegment 0x6000 [0, 0x70, 0, 0, 0, 0, 0, 0] [0])]"
  let ?zs = "[PrintRoot (BssSegment 0x6000 [0, 0x70, 0, 0, 0, 0, 0, 0] [0])]"
  have "case NewTreeClimber anchorDump of
          Ok (c, w) \<Rightarrow>
            (case PrintOwners 0x8000 (- 1) (c, []) of
               (r1, (c1, ys)) \<Rightarrow> r1 = Ok () \<and> ys = ?ys \<and>
                 (case PrintAnchors 0x8000 (c1, []) of
                    Some (r2, (c2, zs)) \<Rightarrow> r2 = Ok () \<and> zs = ?zs
                  | None \<Rightarrow> False))
        | Err e \<Rightarrow> False | Panic q \<Rightarrow> False"
    by code_simp
  then obtain c w where ok: "NewTreeClimber anchorDump = Ok (c, w)"
    and rest: "case PrintOwners 0x8000 (- 1) (c, []) of
               (r1, (c1, ys)) \<Rightarrow> r1 = Ok () \<and> ys = ?ys \<and>
                 (case PrintAnchors 0x8000 (c1, []) of
                    Some (r2, (c2, zs)) \<Rightarrow> r2 = Ok () \<and> zs = ?zs
                  | None \<Rightarrow> False)"
    by (fastforce dest!: outcome_caseD)
  then obtain c1 c2 where po: "PrintOwners 0x8000 (- 1) (c, []) = (Ok (), (c1, ?ys))"
    and pa: "PrintAnchors 0x8000 (c1, []) = Some (Ok (), (c2, ?zs))"
    by (auto split: prod.splits option.splits)
  from queries_repeatable [OF po pa, where h = "\<lambda>contents. contents" and x = "0x6000"] ok
  show ?thesis by blast
qed


section \<open>Properties of the decoder and the pointer extractor\<close>

text \<open>
  The number that a byte sequence denotes with the least significant byte first, and the
  same as a word built byte by byte.
\<close>

fun le_nat :: "byte list \<Rightarrow> nat" where
  "le_nat [] = 0"
| "le_nat (b # bs) = unat b + 256 * le_nat bs"

fun le_word :: "byte list \<Rightarrow> 'a::len word" where
  "le_word [] = 0"
| "le_word (b # bs) = ucast b OR push_bit 8 (le_word bs)"

lemma le_nat_bound: "le_nat bs < 2 ^ (8 * length bs)"
proof (induction bs)
  case Nil
  show ?case by simp
next
  case (Cons b bs)
  have "unat b < 256" using unsigned_less [of b] by simp
  moreover from Cons have "le_nat bs + 1 \<le> 2 ^ (8 * length bs)" by simp
  then have "256 * (le_nat bs + 1) \<le> 256 * 2 ^ (8 * length bs)" by (rule mult_le_mono2)
  ultimately show ?case by (simp add: power_add)
qed

lemma nat_or_shift: 
  assumes "x < 2 ^ k"
  shows "(x::nat) OR push_bit k y = x + 2 ^ k * y"
proof -
  have x: "take_bit k x = x" using assms by (simp add: take_bit_nat_eq_self)
  have "\<not> bit x n \<or> \<not> bit (push_bit k y) n" for n
  proof (cases "n < k")
    case True
    then show ?thesis by (simp add: bit_push_bit_iff)
  next
    case False
    have "bit (take_bit k x) n \<longleftrightarrow> n < k \<and> bit x n" by (rule bit_take_bit_iff)
    with x False show ?thesis by simp
  qed
  then have "x + push_bit k y = x OR push_bit k y" by (rule disjunctive_add)
  then show ?thesis by (simp add: push_bit_eq_mult mult.commute)
qed

lemma le_word_unat:
  "8 * length bs \<le> LENGTH('a) \<Longrightarrow> unat (le_word bs :: 'a::len word) = le_nat bs"
proof (induction bs)
  case Nil
  show ?case by simp
next
  case (Cons b bs)
  then have len: "8 + 8 * length bs \<le> LENGTH('a)" by simp
  from Cons have ih: "unat (le_word bs :: 'a word) = le_nat bs" by simp
  have b: "unat b < 2 ^ 8" using unsigned_less [of b] by simp
  have "le_nat bs < 2 ^ (8 * length bs)" by (rule le_nat_bound)
  then have "2 ^ 8 * le_nat bs < 2 ^ 8 * 2 ^ (8 * length bs)" by simp
  also have "\<dots> = 2 ^ (8 + 8 * length bs)" by (simp add: power_add)
  also have "\<dots> \<le> 2 ^ LENGTH('a)" using len by (intro power_increasing) simp_all
  finally have sh: "push_bit 8 (le_nat bs) < 2 ^ LENGTH('a)" by (simp add: push_bit_eq_mult mult.commute)
  have "unat b < 2 ^ LENGTH('a)"
    using b len by (meson le_add1 le_trans less_le_trans one_le_numeral power_increasing)
  then have ub: "unat (ucast b :: 'a word) = unat b"
    by (simp add: unsigned_ucast_eq take_bit_nat_eq_self)
  have "unat (le_word (b # bs) :: 'a word)
          = unat (ucast b :: 'a word) OR unat (push_bit 8 (le_word bs :: 'a word))"
    by (simp add: unsigned_or_eq)
  also have "\<dots> = unat b OR push_bit 8 (le_nat bs)"
    using sh by (simp add: ub unsigned_push_bit_eq ih take_bit_nat_eq_self)
  also have "\<dots> = unat b + 2 ^ 8 * le_nat bs" using b by (rule nat_or_shift)
  finally show ?case by simp
qed

lemma take8: "8 \<le> length b \<Longrightarrow> take 8 b = [b ! 0, b ! 1, b ! 2, b ! 3, b ! 4, b ! 5, b ! 6, b ! 7]"
  by (auto simp: list_eq_iff_nth_eq nth_Cons eval_nat_numeral split: nat.splits)

lemma take4: "4 \<le> length b \<Longrightarrow> take 4 b = [b ! 0, b ! 1, b ! 2, b ! 3]"
  by (auto simp: list_eq_iff_nth_eq nth_Cons eval_nat_numeral split: nat.splits)

lemma take2: "2 \<le> length b \<Longrightarrow> take 2 b = [b ! 0, b ! 1]"
  by (auto simp: list_eq_iff_nth_eq nth_Cons eval_nat_numeral split: nat.splits)

lemma LittleEndian_Uint64_le_word:
  "8 \<le> length b \<Longrightarrow> LittleEndian_Uint64 b = Inr (le_word (take 8 b))"
  by (simp add: LittleEndian_Uint64_def take8)

lemma LittleEndian_Uint32_le_word:
  "4 \<le> length b \<Longrightarrow> LittleEndian_Uint32 b = Inr (le_word (take 4 b))"
  by (simp add: LittleEndian_Uint32_def take4)

lemma LittleEndian_Uint16_le_word:
  "2 \<le> length b \<Longrightarrow> LittleEndian_Uint16 b = Inr (le_word (take 2 b))"
  by (simp add: LittleEndian_Uint16_def take2)

lemma BigEndian_Uint64_le_word:
  "8 \<le> length b \<Longrightarrow> BigEndian_Uint64 b = Inr (le_word (rev (take 8 b)))"
  by (simp add: BigEndian_Uint64_def take8)

lemma BigEndian_Uint32_le_word:
  "4 \<le> length b \<Longrightarrow> BigEndian_Uint32 b = Inr (le_word (rev (take 4 b)))"
  by (simp add: BigEndian_Uint32_def take4)

lemma BigEndian_Uint16_le_word:
  "2 \<le> length b \<Longrightarrow> BigEndian_Uint16 b = Inr (le_word (rev (take 2 b)))"
  by (simp add: BigEndian_Uint16_def take2)


text \<open>
  \<open>decode_uint\<close> as the specification words it: the fixed-width unsigned integer that
  the bytes denote in the given byte order.
\<close>

definition decode_uint :: "byte list \<Rightarrow> bool \<Rightarrow> nat" where
  "decode_uint bs bigEndian = (if bigEndian then le_nat (rev bs) else le_nat bs)"

lemma unat_ucast_up: "LENGTH('a::len) \<le> LENGTH('b::len) \<Longrightarrow> unat (ucast (w :: 'a word) :: 'b word) = unat w"
  by (simp add: unsigned_ucast_eq take_bit_nat_eq_self
        less_le_trans [OF unsigned_less power_increasing])

lemma pointerTargetAt_ok:
  assumes ps: "PointerSize p \<in> {2, 4, 8}"
    and fit: "unat f + unat (PointerSize p) \<le> length contents"
  shows "\<exists>t. pointerTargetAt p contents f = Inr t \<and>
           unat t = decode_uint (take (unat (PointerSize p)) (drop (unat f) contents)) (BigEndian p)"
proof -
  let ?b = "drop (unat f) contents"
  have sl: "sliceFrom contents f = Inr ?b"
    using fit by (simp add: sliceFrom_def)
  have len: "unat (PointerSize p) \<le> length ?b" using fit by simp
  from ps consider "PointerSize p = 2" | "PointerSize p = 4" | "PointerSize p = 8" by auto
  then show ?thesis
  proof cases
    case 1
    with len have l: "2 \<le> length ?b" by simp
    have "unat (le_word (take 2 ?b) :: 16 word) = le_nat (take 2 ?b)"
      and "unat (le_word (rev (take 2 ?b)) :: 16 word) = le_nat (rev (take 2 ?b))"
      using l by (simp_all add: le_word_unat)
    then show ?thesis
      using 1 l sl
      by (simp add: pointerTargetAt_def LittleEndian_Uint16_le_word BigEndian_Uint16_le_word
            decode_uint_def unat_ucast_up)
  next
    case 2
    with len have l: "4 \<le> length ?b" by simp
    have "unat (le_word (take 4 ?b) :: 32 word) = le_nat (take 4 ?b)"
      and "unat (le_word (rev (take 4 ?b)) :: 32 word) = le_nat (rev (take 4 ?b))"
      using l by (simp_all add: le_word_unat)
    then show ?thesis
      using 2 l sl
      by (simp add: pointerTargetAt_def LittleEndian_Uint32_le_word BigEndian_Uint32_le_word
            decode_uint_def unat_ucast_up)
  next
    case 3
    with len have l: "8 \<le> length ?b" by simp
    have "unat (le_word (take 8 ?b) :: 64 word) = le_nat (take 8 ?b)"
      and "unat (le_word (rev (take 8 ?b)) :: 64 word) = le_nat (rev (take 8 ?b))"
      using l by (simp_all add: le_word_unat)
    then show ?thesis
      using 3 l sl
      by (simp add: pointerTargetAt_def LittleEndian_Uint64_le_word BigEndian_Uint64_le_word
            decode_uint_def)
  qed
qed

lemma pointerInfoLoop_ok:
  assumes ps: "PointerSize p \<in> {2, 4, 8}"
  shows "\<forall>f \<in> set fs. unat f + unat (PointerSize p) \<le> length contents \<Longrightarrow>
     \<exists>src tgt. pointerInfoLoop p a contents fs = Inr (src, tgt) \<and>
       length src = length fs \<and> length tgt = length fs \<and>
       (\<forall>i < length fs. src ! i = a + fs ! i \<and>
          unat (tgt ! i) = decode_uint (take (unat (PointerSize p)) (drop (unat (fs ! i)) contents))
                             (BigEndian p))"
proof (induction fs)
  case Nil
  show ?case by simp
next
  case (Cons f fs)
  from Cons.prems have "unat f + unat (PointerSize p) \<le> length contents" by simp
  from pointerTargetAt_ok [OF ps this] obtain t where t: "pointerTargetAt p contents f = Inr t"
    "unat t = decode_uint (take (unat (PointerSize p)) (drop (unat f) contents)) (BigEndian p)"
    by blast
  from Cons obtain src tgt where r: "pointerInfoLoop p a contents fs = Inr (src, tgt)"
    "length src = length fs" "length tgt = length fs"
    "\<forall>i < length fs. src ! i = a + fs ! i \<and>
          unat (tgt ! i) = decode_uint (take (unat (PointerSize p)) (drop (unat (fs ! i)) contents))
                             (BigEndian p)"
    by auto
  have "\<forall>i < length (f # fs). ((a + f) # src) ! i = a + (f # fs) ! i \<and>
          unat ((t # tgt) ! i)
            = decode_uint (take (unat (PointerSize p)) (drop (unat ((f # fs) ! i)) contents))
                (BigEndian p)"
    using t(2) r(4) by (auto simp: nth_Cons split: nat.splits)
  with t(1) r(1,2,3) show ?case by simp
qed

text \<open>
  C5, as the code has it. For a pointer size of 2, 4 or 8, when every field offset \<open>f\<close>
  has \<open>f + PointerSize \<le> len(contents)\<close>, \<open>GetPointerInfo\<close> returns two sequences as long
  as the field list, with \<open>source[i] = address + f\<^sub>i\<close> and \<open>target[i]\<close> the unsigned
  integer that \<open>contents[f\<^sub>i .. f\<^sub>i + PointerSize]\<close> denotes in the byte order of
  \<open>BigEndian\<close>. For any other pointer size it panics when the field list is not empty.
\<close>

theorem GetPointerInfo_correct:
  "(PointerSize p \<in> {2, 4, 8} \<and>
      (\<forall>f \<in> set (oFields o'). unat f + unat (PointerSize p) \<le> length (oContents o')) \<longrightarrow>
     (\<exists>src tgt. GetPointerInfo o' (Some p) = Inr (src, tgt) \<and>
        length src = length (oFields o') \<and> length tgt = length (oFields o') \<and>
        (\<forall>i < length (oFields o'). src ! i = oAddress o' + oFields o' ! i \<and>
           unat (tgt ! i)
             = decode_uint (take (unat (PointerSize p)) (drop (unat (oFields o' ! i)) (oContents o')))
                 (BigEndian p))))
   \<and> (PointerSize p \<notin> {2, 4, 8} \<and> oFields o' \<noteq> [] \<longrightarrow>
        GetPointerInfo o' (Some p) = Inl (CannotHandlePointers (PointerSize p)))"
proof (intro conjI impI)
  assume "PointerSize p \<in> {2, 4, 8} \<and>
      (\<forall>f \<in> set (oFields o'). unat f + unat (PointerSize p) \<le> length (oContents o'))"
  then show "\<exists>src tgt. GetPointerInfo o' (Some p) = Inr (src, tgt) \<and>
        length src = length (oFields o') \<and> length tgt = length (oFields o') \<and>
        (\<forall>i < length (oFields o'). src ! i = oAddress o' + oFields o' ! i \<and>
           unat (tgt ! i)
             = decode_uint (take (unat (PointerSize p)) (drop (unat (oFields o' ! i)) (oContents o')))
                 (BigEndian p))"
    using pointerInfoLoop_ok [of p "oFields o'" "oContents o'" "oAddress o'"]
    by (simp add: GetPointerInfo_def)
next
  assume a: "PointerSize p \<notin> {2, 4, 8} \<and> oFields o' \<noteq> []"
  then obtain f fs where "oFields o' = f # fs" by (cases "oFields o'") auto
  with a show "GetPointerInfo o' (Some p) = Inl (CannotHandlePointers (PointerSize p))"
    by (simp add: GetPointerInfo_def pointerTargetAt_def)
qed

text \<open>
  With an empty field list a pointer size of 3 is no error: the result is two empty
  sequences.
\<close>

theorem pointer_size_hard_error_counterexample:
  "GetPointerInfo (Owner 0x1000 [] []) (Some (DumpParams False 3 0 0 [] [] 1)) = Inr ([], [])"
  by (simp add: GetPointerInfo_def)

theorem GetPointerInfo_correct_witness:
  "\<exists>src tgt.
     GetPointerInfo (Owner 0x2000 [0, 0x30, 0, 0, 0, 0, 0, 0, 0x12, 0x34] [0, 2])
         (Some (DumpParams True 8 0 0 [] [] 1)) = Inr (src, tgt)
     \<and> src = [0x2000, 0x2002] \<and> tgt = [0x0030000000000000, 0x1234]
     \<and> unat (tgt ! 0) = decode_uint [0, 0x30, 0, 0, 0, 0, 0, 0] True
     \<and> unat (tgt ! 1) = decode_uint [0, 0, 0, 0, 0, 0, 0x12, 0x34] True
     \<and> GetPointerInfo (Owner 0x2000 [0, 0x30, 0, 0, 0, 0, 0, 0] [0])
           (Some (DumpParams False 3 0 0 [] [] 1))
         = Inl (CannotHandlePointers 3)"
proof -
  let ?o = "Owner 0x2000 [0, 0x30, 0, 0, 0, 0, 0, 0, 0x12, 0x34] [0, 2]"
  let ?p = "DumpParams True 8 0 0 [] [] 1"
  have "PointerSize ?p \<in> {2, 4, 8} \<and>
      (\<forall>f \<in> set (oFields ?o). unat f + unat (PointerSize ?p) \<le> length (oContents ?o))"
    by simp
  with GetPointerInfo_correct [of ?p ?o]
  obtain src tgt where 1: "GetPointerInfo ?o (Some ?p) = Inr (src, tgt)"
    and n: "\<forall>i < length (oFields ?o). src ! i = oAddress ?o + oFields ?o ! i \<and>
           unat (tgt ! i)
             = decode_uint (take (unat (PointerSize ?p)) (drop (unat (oFields ?o ! i)) (oContents ?o)))
                 (BigEndian ?p)"
    by blast
  have 2: "GetPointerInfo ?o (Some ?p) = Inr ([0x2000, 0x2002], [0x0030000000000000, 0x1234])"
    by code_simp
  from n have "unat (tgt ! 0) = decode_uint [0, 0x30, 0, 0, 0, 0, 0, 0] True"
    by (drule_tac x = 0 in spec) simp
  moreover from n have "unat (tgt ! 1) = decode_uint [0, 0, 0, 0, 0, 0, 0x12, 0x34] True"
    by (drule_tac x = 1 in spec) simp
  moreover
  let ?o2 = "Owner 0x2000 [0, 0x30, 0, 0, 0, 0, 0, 0] [0]"
  let ?p2 = "DumpParams False 3 0 0 [] [] 1"
  have "PointerSize ?p2 \<notin> {2, 4, 8} \<and> oFields ?o2 \<noteq> []" by simp
  with GetPointerInfo_correct [of ?p2 ?o2]
  have "GetPointerInfo ?o2 (Some ?p2) = Inl (CannotHandlePointers 3)" by simp
  ultimately show ?thesis using 1 2 by simp
qed

text \<open>The primitive readers leave the two registries alone.\<close>

definition keeps :: "'a read \<Rightarrow> bool" where
  "keeps m \<longleftrightarrow> (\<forall>w x w'. m w = Ok (x, w') \<longrightarrow> oidMap w' = oidMap w \<and> nameMap w' = nameMap w)"

lemma keeps_ReadUvarint: "keeps ReadUvarint"
  by (auto simp: keeps_def ReadUvarint_def split: prod.splits option.splits)

lemma keeps_ReadFull: "keeps (ReadFull n)"
  by (auto simp: keeps_def ReadFull_def split: if_splits)

lemma keeps_ReadFields: "keeps ReadFields"
  by (auto simp: keeps_def ReadFields_def split: sum.splits prod.splits)

lemma keeps_ReadBytes: "keeps ReadBytes"
  using keeps_ReadUvarint keeps_ReadFull
  by (fastforce simp: keeps_def ReadBytes_def andThen_Ok)

text \<open>
  What \<open>Object.Read\<close> does with the class name: when the contents are longer than 8 bytes
  and their first 8 bytes, read as a little-endian integer, are a registered OID, the
  name of the object and the symbol at its address are the registered class name;
  otherwise the name stays empty and the symbol table is left as it is.
\<close>

lemma Object_Read_name:
  assumes "Object_Read w = Ok (r, w')"
  shows "\<exists>a cs fs. r = Object a cs fs
            (if 8 < length cs then
               (case oidMap w (le_word (take 8 cs)) of Some n \<Rightarrow> n | None \<Rightarrow> [])
             else [])
         \<and> nameMap w' =
            (if 8 < length cs then
               (case oidMap w (le_word (take 8 cs)) of
                  Some n \<Rightarrow> (nameMap w)(a \<mapsto> n) | None \<Rightarrow> nameMap w)
             else nameMap w)"
proof -
  from assms obtain a w1 cs w2 fs w3 where 1: "ReadUvarint w = Ok (a, w1)"
    and 2: "ReadBytes w1 = Ok (cs, w2)" and 3: "ReadFields w2 = Ok (fs, w3)"
    and 4: "(if 8 < length cs then
         (case LittleEndian_Uint64 cs of
            Inr oid \<Rightarrow>
              (case oidMap w3 oid of
                 Some className \<Rightarrow>
                   Ok (Object a cs fs className, AddName a className w3)
               | None \<Rightarrow> Ok (Object a cs fs [], w3))
          | Inl q \<Rightarrow> Panic q)
       else Ok (Object a cs fs [], w3)) = Ok (r, w')"
    unfolding Object_Read_def andThen_Ok by blast
  from 1 2 3 keeps_ReadUvarint keeps_ReadBytes keeps_ReadFields
  have k: "oidMap w3 = oidMap w" "nameMap w3 = nameMap w"
    unfolding keeps_def by metis+
  show ?thesis
  proof (cases "8 < length cs")
    case True
    then have "LittleEndian_Uint64 cs = Inr (le_word (take 8 cs))"
      by (simp add: LittleEndian_Uint64_le_word)
    with 4 True k show ?thesis
      by (intro exI [of _ a] exI [of _ cs] exI [of _ fs])
         (auto simp: AddName_def split: option.splits)
  next
    case False
    with 4 k show ?thesis
      by (intro exI [of _ a] exI [of _ cs] exI [of _ fs]) auto
  qed
qed

definition oidObject8 :: world where
  "oidObject8 =
     \<lparr>reader = [1, 0x10, 8, 0x16, 0, 0, 0, 0x4e, 0xe1, 0xff, 0xca, 0],
      oidMap = [0xcaffe14e00000016 \<mapsto> [0x57]], nameMap = Map.empty\<rparr>"

text \<open>
  C2. An Object record at \<open>0x10\<close> whose contents are exactly the 8 bytes of the registered
  OID \<open>0xcaffe14e00000016\<close> (little-endian) is decoded with an empty name, and no symbol
  is registered at \<open>0x10\<close>: the code asks for more than 8 bytes.
\<close>

theorem Object_Read_eight_bytes_unnamed:
  "(case ReadRecord oidObject8 of
      Ok (r, w') \<Rightarrow> Some (r, nameMap w' 0x10, oidMap w' 0xcaffe14e00000016)
    | _ \<Rightarrow> None)
     = Some (Object 0x10 [0x16, 0, 0, 0, 0x4e, 0xe1, 0xff, 0xca] [] [], None, Some [0x57])
   \<and> LittleEndian_Uint64 [0x16, 0, 0, 0, 0x4e, 0xe1, 0xff, 0xca] = Inr 0xcaffe14e00000016"
  by code_simp


section \<open>The OID file (names.go)\<close>

text \<open>
  \<open>ReadOids\<close> calls \<open>fmt.Fscanln(r, &oid, &name)\<close> with a \<open>uint64\<close> and a \<open>string\<close>.
  The scanner is the Go library's (\<open>fmt/scan.go\<close>, \<open>strconv/atoi.go\<close>), for these two
  operand types and the verb \<open>%v\<close>. The input is the sequence of runes that the reader
  yields; end of input is the empty list.
\<close>

type_synonym rune = "32 word"

definition isSpace :: "rune \<Rightarrow> bool" where
  "isSpace r \<longleftrightarrow>
     (0x0009 \<le> r \<and> r \<le> 0x000d) \<or> r = 0x0020 \<or> r = 0x0085 \<or> r = 0x00a0 \<or> r = 0x1680
     \<or> (0x2000 \<le> r \<and> r \<le> 0x200a) \<or> r = 0x2028 \<or> r = 0x2029 \<or> r = 0x202f
     \<or> r = 0x205f \<or> r = 0x3000"

text \<open>
  \<open>SkipSpace\<close> in the mode of \<open>Fscanln\<close>, where a newline is not space: it reads up to
  the first rune that is not space and puts it back; a newline is an error.
\<close>

fun SkipSpace :: "rune list \<Rightarrow> error + rune list" where
  "SkipSpace [] = Inr []"
| "SkipSpace (r # rs) =
     (if r = 0x0d \<and> (case rs of [] \<Rightarrow> False | r' # _ \<Rightarrow> r' = 0x0a) then SkipSpace rs
      else if r = 0x0a then Inl UnexpectedNewline
      else if \<not> isSpace r then Inr (r # rs)
      else SkipSpace rs)"

definition notEOF :: "rune list \<Rightarrow> error + rune list" where
  "notEOF rs = (if rs = [] then Inl EOF else Inr rs)"

definition binaryDigits :: "rune list" where "binaryDigits = [0x30, 0x31]"
definition octalDigits :: "rune list" where "octalDigits = [0x30, 0x31, 0x32, 0x33, 0x34, 0x35, 0x36, 0x37]"
definition decimalDigits :: "rune list" where
  "decimalDigits = [0x30, 0x31, 0x32, 0x33, 0x34, 0x35, 0x36, 0x37, 0x38, 0x39]"
definition hexadecimalDigits :: "rune list" where
  "hexadecimalDigits = [0x30, 0x31, 0x32, 0x33, 0x34, 0x35, 0x36, 0x37, 0x38, 0x39,
                        0x61, 0x41, 0x62, 0x42, 0x63, 0x43, 0x64, 0x44, 0x65, 0x45, 0x66, 0x46]"

text \<open>
  \<open>scanBasePrefix\<close> and \<open>scanNumber\<close>: the token of an unsigned integer, with the
  prefixes \<open>0b\<close>, \<open>0o\<close>, \<open>0x\<close> and \<open>0\<close>, and underscores. The result is the token and
  the unread input.
\<close>

definition peek :: "rune list \<Rightarrow> rune list \<Rightarrow> bool" where
  "peek ok rs = (case rs of [] \<Rightarrow> False | r # _ \<Rightarrow> r \<in> set ok)"

definition scanBasePrefix :: "rune list \<Rightarrow> rune list \<times> bool \<times> rune list \<times> rune list" where
  "scanBasePrefix rs =
     (if \<not> peek [0x30] rs then (decimalDigits @ [0x5f], False, [], rs)
      else
        let rs1 = tl rs in
        if peek [0x62, 0x42] rs1 then (binaryDigits @ [0x5f], True, [0x30, hd rs1], tl rs1)
        else if peek [0x6f, 0x4f] rs1 then (octalDigits @ [0x5f], True, [0x30, hd rs1], tl rs1)
        else if peek [0x78, 0x58] rs1 then (hexadecimalDigits @ [0x5f], True, [0x30, hd rs1], tl rs1)
        else (octalDigits @ [0x5f], True, [0x30], rs1))"

definition scanNumber :: "rune list \<Rightarrow> bool \<Rightarrow> rune list \<Rightarrow> rune list \<Rightarrow> error + (rune list \<times> rune list)" where
  "scanNumber digits haveDigits buf rs =
     (if \<not> haveDigits \<and> rs = [] then Inl EOF
      else if \<not> haveDigits \<and> \<not> peek digits rs then Inl ExpectedInteger
      else Inr (buf @ takeWhile (\<lambda>r. r \<in> set digits) rs, dropWhile (\<lambda>r. r \<in> set digits) rs))"

text \<open>
  \<open>strconv.ParseUint(tok, 0, 64)\<close>, with \<open>underscoreOK\<close>. The cutoff is the smallest \<open>n\<close>
  for which \<open>n * base\<close> overflows.
\<close>

definition lower :: "byte \<Rightarrow> byte" where
  "lower c = c OR 0x20"

fun underscoreOKLoop :: "bool \<Rightarrow> byte \<Rightarrow> byte list \<Rightarrow> bool" where
  "underscoreOKLoop hex saw [] = (saw \<noteq> 0x5f)"
| "underscoreOKLoop hex saw (c # cs) =
     (if (0x30 \<le> c \<and> c \<le> 0x39) \<or> (hex \<and> 0x61 \<le> lower c \<and> lower c \<le> 0x66)
        then underscoreOKLoop hex 0x30 cs
      else if c = 0x5f then (if saw \<noteq> 0x30 then False else underscoreOKLoop hex 0x5f cs)
      else if saw = 0x5f then False
      else underscoreOKLoop hex 0x21 cs)"

definition underscoreOK :: "byte list \<Rightarrow> bool" where
  "underscoreOK s0 =
     (let s = (if 1 \<le> length s0 \<and> (hd s0 = 0x2d \<or> hd s0 = 0x2b) then tl s0 else s0) in
      if 2 \<le> length s \<and> s ! 0 = 0x30
           \<and> (lower (s ! 1) = 0x62 \<or> lower (s ! 1) = 0x6f \<or> lower (s ! 1) = 0x78)
        then underscoreOKLoop (lower (s ! 1) = 0x78) 0x30 (drop 2 s)
      else underscoreOKLoop False 0x5e s)"

fun parseDigits :: "u64 \<Rightarrow> byte list \<Rightarrow> byte list \<Rightarrow> u64 \<Rightarrow> bool \<Rightarrow> error + (u64 \<times> bool)" where
  "parseDigits base s0 [] n underscores = Inr (n, underscores)"
| "parseDigits base s0 (c # cs) n underscores =
     (if c = 0x5f then parseDigits base s0 cs n True
      else if \<not> ((0x30 \<le> c \<and> c \<le> 0x39) \<or> (0x61 \<le> lower c \<and> lower c \<le> 0x7a))
        then Inl (ErrSyntax s0)
      else
        let d = (if 0x30 \<le> c \<and> c \<le> 0x39 then c - 0x30 else lower c - 0x61 + 10) in
        if ucast base \<le> d then Inl (ErrSyntax s0)
        else if (- 1) div base + 1 \<le> n then Inl (ErrRange s0)
        else
          let n1 = n * base + ucast d in
          if n1 < n * base then Inl (ErrRange s0)
          else parseDigits base s0 cs n1 underscores)"

definition ParseUint :: "byte list \<Rightarrow> error + u64" where
  "ParseUint s =
     (if s = [] then Inl (ErrSyntax s)
      else
        let (base, digits) =
              (if s ! 0 = 0x30 then
                 (if 3 \<le> length s \<and> lower (s ! 1) = 0x62 then (2, drop 2 s)
                  else if 3 \<le> length s \<and> lower (s ! 1) = 0x6f then (8, drop 2 s)
                  else if 3 \<le> length s \<and> lower (s ! 1) = 0x78 then (16, drop 2 s)
                  else (8, drop 1 s))
               else (10, s))
        in (case parseDigits base s digits 0 False of
              Inl e \<Rightarrow> Inl e
            | Inr (n, underscores) \<Rightarrow>
                if underscores \<and> \<not> underscoreOK s then Inl (ErrSyntax s) else Inr n))"

definition scanUint :: "rune list \<Rightarrow> error + (u64 \<times> rune list)" where
  "scanUint rs =
     (case SkipSpace rs of
        Inl e \<Rightarrow> Inl e
      | Inr rs1 \<Rightarrow>
          (case notEOF rs1 of
             Inl e \<Rightarrow> Inl e
           | Inr rs2 \<Rightarrow>
               (case scanBasePrefix rs2 of
                  (digits, haveDigits, buf, rs3) \<Rightarrow>
                    (case scanNumber digits haveDigits buf rs3 of
                       Inl e \<Rightarrow> Inl e
                     | Inr (tok, rs4) \<Rightarrow>
                         (case ParseUint (map ucast tok) of
                            Inl e \<Rightarrow> Inl e
                          | Inr i \<Rightarrow> Inr (i, rs4))))))"

text \<open>
  The string operand: the next word, up to space or end of input, as UTF-8.
\<close>

definition encodeRune :: "rune \<Rightarrow> byte list" where
  "encodeRune r =
     (if r < 0x80 then [ucast r]
      else if r < 0x800 then [0xC0 OR ucast (drop_bit 6 r), 0x80 OR (ucast r AND 0x3F)]
      else if 0x10FFFF < r \<or> (0xD800 \<le> r \<and> r \<le> 0xDFFF) then [0xEF, 0xBF, 0xBD]
      else if r < 0x10000 then
        [0xE0 OR ucast (drop_bit 12 r), 0x80 OR (ucast (drop_bit 6 r) AND 0x3F),
         0x80 OR (ucast r AND 0x3F)]
      else
        [0xF0 OR ucast (drop_bit 18 r), 0x80 OR (ucast (drop_bit 12 r) AND 0x3F),
         0x80 OR (ucast (drop_bit 6 r) AND 0x3F), 0x80 OR (ucast r AND 0x3F)])"

definition token :: "rune list \<Rightarrow> error + (gostring \<times> rune list)" where
  "token rs =
     (case SkipSpace rs of
        Inl e \<Rightarrow> Inl e
      | Inr rs1 \<Rightarrow>
          Inr (concat (map encodeRune (takeWhile (\<lambda>r. \<not> isSpace r) rs1)),
               dropWhile (\<lambda>r. \<not> isSpace r) rs1))"

definition convertString :: "rune list \<Rightarrow> error + (gostring \<times> rune list)" where
  "convertString rs =
     (case SkipSpace rs of
        Inl e \<Rightarrow> Inl e
      | Inr rs1 \<Rightarrow> (case notEOF rs1 of Inl e \<Rightarrow> Inl e | Inr rs2 \<Rightarrow> token rs2))"

text \<open>
  After the last operand \<open>Fscanln\<close> reads to the newline or to the end of input; anything
  but space before it is an error.
\<close>

fun endOfLine :: "rune list \<Rightarrow> error + rune list" where
  "endOfLine [] = Inr []"
| "endOfLine (r # rs) =
     (if r = 0x0a then Inr rs
      else if \<not> isSpace r then Inl ExpectedNewline
      else endOfLine rs)"

text \<open>
  The result of \<open>Fscanln\<close>: \<open>Scanned n oid name r\<close> is \<open>n\<close> with a nil error, the values
  stored through the two pointers, and the unread input; \<open>NotScanned n err\<close> is \<open>n\<close> with
  the error \<open>err\<close>, after which \<open>ReadOids\<close> reads no further.
\<close>

datatype scan = Scanned nat u64 gostring "rune list" | NotScanned nat error

definition Fscanln :: "rune list \<Rightarrow> scan" where
  "Fscanln rs =
     (case scanUint rs of
        Inl e \<Rightarrow> NotScanned 0 e
      | Inr (oid, rs1) \<Rightarrow>
          (case convertString rs1 of
             Inl e \<Rightarrow> NotScanned 1 e
           | Inr (name, rs2) \<Rightarrow>
               (case endOfLine rs2 of
                  Inl e \<Rightarrow> NotScanned 2 e
                | Inr rs3 \<Rightarrow> Scanned 2 oid name rs3)))"

text \<open>A successful scan takes at least one rune, so the loop of \<open>ReadOids\<close> ends.\<close>

lemma SkipSpace_length: "SkipSpace rs = Inr rs' \<Longrightarrow> length rs' \<le> length rs"
  by (induction rs rule: SkipSpace.induct) (auto split: if_splits)

lemma endOfLine_length: "endOfLine rs = Inr rs' \<Longrightarrow> length rs' \<le> length rs"
  by (induction rs rule: endOfLine.induct) (auto split: if_splits)

lemma dropWhile_length: "length (dropWhile P rs) \<le> length rs"
  by (induction rs) auto

lemma token_length: "token rs = Inr (name, rs') \<Longrightarrow> length rs' \<le> length rs"
  by (auto simp: token_def split: sum.splits
      dest!: SkipSpace_length intro: le_trans [OF dropWhile_length])

lemma convertString_length: "convertString rs = Inr (name, rs') \<Longrightarrow> length rs' \<le> length rs"
  by (auto simp: convertString_def notEOF_def split: sum.splits if_splits
      dest!: SkipSpace_length token_length)

lemma scanBasePrefix_length:
  "scanBasePrefix rs = (digits, haveDigits, buf, rs') \<Longrightarrow>
     length rs' \<le> length rs \<and> (haveDigits \<longrightarrow> length rs' < length rs)"
  by (cases rs; cases "tl rs") (auto simp: scanBasePrefix_def peek_def Let_def split: if_splits)

lemma scanNumber_length:
  "scanNumber digits haveDigits buf rs = Inr (tok, rs') \<Longrightarrow>
     length rs' \<le> length rs \<and> (\<not> haveDigits \<longrightarrow> length rs' < length rs)"
proof -
  assume a: "scanNumber digits haveDigits buf rs = Inr (tok, rs')"
  then have rs': "rs' = dropWhile (\<lambda>r. r \<in> set digits) rs"
    by (auto simp: scanNumber_def split: if_splits)
  have le: "length rs' \<le> length rs" unfolding rs' by (rule dropWhile_length)
  have "length rs' < length rs" if "\<not> haveDigits"
  proof -
    from a that obtain x xs where rs: "rs = x # xs" and x: "x \<in> set digits"
      by (cases rs) (auto simp: scanNumber_def peek_def split: if_splits)
    then have "rs' = dropWhile (\<lambda>r. r \<in> set digits) xs" by (simp add: rs')
    then have "length rs' \<le> length xs" by (simp add: dropWhile_length)
    with rs show ?thesis by simp
  qed
  with le show ?thesis by blast
qed

lemma scanUint_length: "scanUint rs = Inr (i, rs') \<Longrightarrow> length rs' < length rs"
proof -
  assume a: "scanUint rs = Inr (i, rs')"
  then obtain rs1 digits haveDigits buf rs3 tok where 1: "SkipSpace rs = Inr rs1"
    and 2: "scanBasePrefix rs1 = (digits, haveDigits, buf, rs3)"
    and 3: "scanNumber digits haveDigits buf rs3 = Inr (tok, rs')"
    by (auto simp: scanUint_def notEOF_def split: sum.splits if_splits prod.splits)
  from SkipSpace_length [OF 1] scanBasePrefix_length [OF 2] scanNumber_length [OF 3]
  show ?thesis by (cases haveDigits) auto
qed

lemma Fscanln_Scanned:
  assumes "Fscanln r = Scanned n oid name r'"
  shows "n = 2" and "length r' < length r"
proof -
  from assms obtain rs1 rs2 where 1: "scanUint r = Inr (oid, rs1)"
    and 2: "convertString rs1 = Inr (name, rs2)" and 3: "endOfLine rs2 = Inr r'" and n: "n = 2"
    by (auto simp: Fscanln_def split: sum.splits)
  from n show "n = 2" .
  from scanUint_length [OF 1] convertString_length [OF 2] endOfLine_length [OF 3]
  show "length r' < length r" by simp
qed

text \<open>
  \<open>ReadOids\<close>: \<open>io.EOF\<close> ends the loop and the result is nil, any other error is
  returned, and a scanned entry is stored when \<open>n == 2 && oid > 0 && len(name) > 0\<close>.
\<close>

function ReadOidsLoop :: "rune list \<Rightarrow> world \<Rightarrow> error option \<times> world" where
  "ReadOidsLoop r w =
     (case Fscanln r of
        NotScanned n err \<Rightarrow> if err = EOF then (None, w) else (Some err, w)
      | Scanned n oid name r' \<Rightarrow>
          ReadOidsLoop r'
            (if n = 2 \<and> 0 < oid \<and> 0 < length name
             then w\<lparr>oidMap := (oidMap w)(oid \<mapsto> name)\<rparr> else w))"
  by pat_completeness auto
termination
  by (relation "measure (\<lambda>(r, w). length r)") (auto dest: Fscanln_Scanned(2))

declare ReadOidsLoop.simps [simp del]

definition ReadOids :: "rune list \<Rightarrow> world \<Rightarrow> error option \<times> world" where
  "ReadOids r w = ReadOidsLoop r w"

text \<open>
  \<open>scans r es r'\<close>: from the input \<open>r\<close>, \<open>Fscanln\<close> scans the lines with the entries \<open>es\<close>
  one after the other, and \<open>r'\<close> is the input left. \<open>retain\<close> stores the entries as
  \<open>ReadOids\<close> does.
\<close>

inductive scans :: "rune list \<Rightarrow> (u64 \<times> gostring) list \<Rightarrow> rune list \<Rightarrow> bool" where
  none: "scans r [] r"
| line: "Fscanln r = Scanned n oid name r' \<Longrightarrow> scans r' es r'' \<Longrightarrow> scans r ((oid, name) # es) r''"

fun retain :: "(u64 \<times> gostring) list \<Rightarrow> world \<Rightarrow> world" where
  "retain [] w = w"
| "retain ((oid, name) # es) w =
     retain es (if 0 < oid \<and> name \<noteq> [] then AddOid oid name w else w)"

lemma scans_ReadOids: "scans r es r' \<Longrightarrow> ReadOids r w = ReadOids r' (retain es w)"
proof (induction arbitrary: w rule: scans.induct)
  case (none r)
  show ?case by simp
next
  case (line r n oid name r' es r'')
  from Fscanln_Scanned(1) [OF line.hyps(1)] have n: "n = 2" .
  have "ReadOids r w = ReadOids r' (if 0 < oid \<and> name \<noteq> [] then AddOid oid name w else w)"
    using line.hyps(1) n by (simp add: ReadOids_def ReadOidsLoop.simps [of r w] AddOid_def)
  with line.IH show ?case by simp
qed

lemma SkipSpace_blank:
  "\<forall>c \<in> set sp. isSpace c \<and> c \<noteq> 0x0a \<Longrightarrow> SkipSpace (sp @ 0x0a # rest) = Inl UnexpectedNewline"
  by (induction sp) (auto split: list.splits)

lemma Fscanln_blank:
  "\<forall>c \<in> set sp. isSpace c \<and> c \<noteq> 0x0a \<Longrightarrow>
     Fscanln (sp @ 0x0a # rest) = NotScanned 0 UnexpectedNewline"
  by (simp add: Fscanln_def scanUint_def SkipSpace_blank)

text \<open>
  C4, as the code has it. \<open>ReadOids\<close> reads the lines in order and retains the entry of
  each line that \<open>Fscanln\<close> scans, when its OID is positive. Where \<open>Fscanln\<close> first fails
  it stops, with the entries of the earlier lines retained and the rest of the input
  unread. If the error of \<open>Fscanln\<close> there is \<open>io.EOF\<close>, the load returns without error. For
  any other error the load returns that error; a blank line (nothing but space before
  the newline) gives the error \<open>unexpected newline\<close>.
\<close>

theorem ReadOids_stops_at_first_bad_line:
  assumes "scans r es r'"
  shows "(\<forall>sp rest. r' = sp @ 0x0a # rest \<and> (\<forall>c \<in> set sp. isSpace c \<and> c \<noteq> 0x0a) \<longrightarrow>
            ReadOids r w = (Some UnexpectedNewline, retain es w))
       \<and> (\<forall>n e. Fscanln r' = NotScanned n e \<and> e \<noteq> EOF \<longrightarrow>
            ReadOids r w = (Some e, retain es w))
       \<and> (\<forall>n. Fscanln r' = NotScanned n EOF \<longrightarrow> ReadOids r w = (None, retain es w))"
proof -
  have eq: "ReadOids r w = ReadOids r' (retain es w)"
    using assms by (rule scans_ReadOids)
  have bad: "ReadOids r' w' = (if e = EOF then (None, w') else (Some e, w'))"
    if "Fscanln r' = NotScanned n e" for n e w'
    using that by (simp add: ReadOids_def ReadOidsLoop.simps [of r' w'])
  show ?thesis
  proof (intro conjI allI impI)
    fix sp rest
    assume "r' = sp @ 0x0a # rest \<and> (\<forall>c \<in> set sp. isSpace c \<and> c \<noteq> 0x0a)"
    then have "Fscanln r' = NotScanned 0 UnexpectedNewline"
      using Fscanln_blank [of sp rest] by blast
    from bad [OF this] eq show "ReadOids r w = (Some UnexpectedNewline, retain es w)" by simp
  next
    fix n e
    assume "Fscanln r' = NotScanned n e \<and> e \<noteq> EOF"
    with bad [of n e] eq show "ReadOids r w = (Some e, retain es w)" by simp
  next
    fix n
    assume "Fscanln r' = NotScanned n EOF"
    from bad [OF this] eq show "ReadOids r w = (None, retain es w)" by simp
  qed
qed

definition oidFile :: "rune list" where
  "oidFile = [0x31, 0x20, 0x61, 0x0a, 0x0a, 0x32, 0x20, 0x62, 0x0a]"

definition noOids :: world where
  "noOids = \<lparr>reader = [], oidMap = Map.empty, nameMap = Map.empty\<rparr>"

text \<open>
  The file with the three lines \<open>1 a\<close>, an empty line and \<open>2 b\<close>: the load fails at the
  blank line with the entry of 1 retained and the entry of 2 never read.
\<close>

theorem ReadOids_blank_line_counterexample:
  "(case ReadOids oidFile noOids of (err, w) \<Rightarrow> (err, oidMap w 1, oidMap w 2))
     = (Some UnexpectedNewline, Some [0x61], None)"
  by code_simp

text \<open>
  \<open>io.EOF\<close> is also what \<open>Fscanln\<close> returns when the input ends where an operand is still
  to be read. The file with the line \<open>1 a\<close> and then \<open>5\<close>, with no name and no newline: the
  load returns without error, with the entry of 1 retained and no entry of 5.
\<close>

lemma ReadOids_truncated_last_line:
  "(case ReadOids [0x31, 0x20, 0x61, 0x0a, 0x35] noOids of (err, w) \<Rightarrow> (err, oidMap w 1, oidMap w 5))
     = (None, Some [0x61], None)"
  by code_simp

theorem ReadOids_stops_at_first_bad_line_witness:
  "scans oidFile [(1, [0x61])] [0x0a, 0x32, 0x20, 0x62, 0x0a]
   \<and> ReadOids oidFile noOids = (Some UnexpectedNewline, retain [(1, [0x61])] noOids)
   \<and> oidMap (retain [(1, [0x61])] noOids) 1 = Some [0x61]
   \<and> oidMap (retain [(1, [0x61])] noOids) 2 = None"
proof -
  have f: "Fscanln oidFile = Scanned 2 1 [0x61] [0x0a, 0x32, 0x20, 0x62, 0x0a]"
    by code_simp
  have s: "scans oidFile [(1, [0x61])] [0x0a, 0x32, 0x20, 0x62, 0x0a]"
    by (rule scans.line [OF f scans.none])
  have "ReadOids oidFile noOids = (Some UnexpectedNewline, retain [(1, [0x61])] noOids)"
    by (rule ReadOids_stops_at_first_bad_line
          [OF s, of noOids, THEN conjunct1, rule_format, of "[]" "[0x32, 0x20, 0x62, 0x0a]"])
       simp
  moreover have "oidMap (retain [(1, [0x61])] noOids) 1 = Some [0x61]"
    "oidMap (retain [(1, [0x61])] noOids) 2 = None"
    by (simp_all add: AddOid_def noOids_def)
  ultimately show ?thesis using s by simp
qed


end
